theory Spec2Isabelle
  imports Main
begin

unbundle bit_operations_syntax

section \<open>Strings\<close>

text \<open>
  A JavaScript string is a sequence of code units.  The model uses \<^typ>\<open>string\<close>; a
  \<^typ>\<open>char\<close> stands for the code unit with the same number, so the model covers the
  texts whose code units are below 256.  Numbers that count lines are \<^typ>\<open>nat\<close>.
\<close>

text \<open>\<^verbatim>\<open>content.split("\n")\<close>: always at least one piece.\<close>

fun split_nl :: "string \<Rightarrow> string list" where
  "split_nl [] = [[]]"
| "split_nl (c # cs) =
     (if c = CHR 0x0A then [] # split_nl cs
      else (case split_nl cs of [] \<Rightarrow> [[c]] | l # ls \<Rightarrow> (c # l) # ls))"

text \<open>\<^verbatim>\<open>lines.join("\n")\<close>.\<close>

fun join_nl :: "string list \<Rightarrow> string" where
  "join_nl [] = []"
| "join_nl [l] = l"
| "join_nl (l # m # ls) = l @ CHR 0x0A # join_nl (m # ls)"

text \<open>
  White space of \<^verbatim>\<open>String.prototype.trim\<close> and of the regular expression class
  \<^verbatim>\<open>\s\<close> (ECMAScript WhiteSpace and LineTerminator) below 256: TAB, LF, VT, FF, CR,
  SPACE and NO-BREAK SPACE.
\<close>

definition isSpace :: "char \<Rightarrow> bool" where
  "isSpace c = (c \<in> set [CHR 0x09, CHR 0x0A, CHR 0x0B, CHR 0x0C, CHR 0x0D, CHR 0x20, CHR 0xA0])"

definition trim :: "string \<Rightarrow> string" where
  "trim s = rev (dropWhile isSpace (rev (dropWhile isSpace s)))"

text \<open>The characters that the regular expression atom \<^verbatim>\<open>.\<close> refuses (below 256: LF, CR).\<close>

definition isLineTerminator :: "char \<Rightarrow> bool" where
  "isLineTerminator c = (c \<in> set [CHR 0x0A, CHR 0x0D])"

text \<open>
  \<^verbatim>\<open>toLowerCase\<close> below 256: A-Z and the Latin-1 capitals (0xC0-0xDE without the
  multiplication sign 0xD7) move up by 32.
\<close>

definition lowerChar :: "char \<Rightarrow> char" where
  "lowerChar c =
     (let n = (of_char c :: nat)
      in if (65 \<le> n \<and> n \<le> 90) \<or> (192 \<le> n \<and> n \<le> 222 \<and> n \<noteq> 215) then char_of (n + 32) else c)"

definition toLowerCase :: "string \<Rightarrow> string" where
  "toLowerCase s = map lowerChar s"

text \<open>\<^verbatim>\<open>s.startsWith(p)\<close>.\<close>

definition startsWith :: "string \<Rightarrow> string \<Rightarrow> bool" where
  "startsWith s p = (take (length p) s = p)"

text \<open>Template-literal printing of a non-negative integer: its decimal digits.\<close>

definition digit :: "nat \<Rightarrow> char" where
  "digit n = ''0123456789'' ! n"

fun dec :: "nat \<Rightarrow> string" where
  "dec n = (if n < 10 then [digit n] else dec (n div 10) @ [digit (n mod 10)])"

declare dec.simps [simp del]

text \<open>\<^verbatim>\<open>xs[i]\<close> of JavaScript: \<^verbatim>\<open>undefined\<close> out of range.\<close>

definition nth_opt :: "'a list \<Rightarrow> nat \<Rightarrow> 'a option" where
  "nth_opt xs i = (if i < length xs then Some (xs ! i) else None)"

text \<open>\<^verbatim>\<open>xs.findIndex(p)\<close>, with \<open>None\<close> for -1.\<close>

fun findIndex :: "('a \<Rightarrow> bool) \<Rightarrow> 'a list \<Rightarrow> nat option" where
  "findIndex p [] = None"
| "findIndex p (x # xs) = (if p x then Some 0 else map_option Suc (findIndex p xs))"


section \<open>SHA-256\<close>

text \<open>
  \<^verbatim>\<open>crypto.subtle.digest("SHA-256", data)\<close> is the platform's SHA-256 (FIPS 180-4).
  A 32-bit word is a natural number below \<open>2 ^ 32\<close>, a byte one below 256; the
  wrap-around of the additions is written out.
\<close>

type_synonym word32 = nat

type_synonym byte = nat

definition add32 :: "word32 \<Rightarrow> word32 \<Rightarrow> word32" where
  "add32 x y = (x + y) mod 4294967296"

definition not32 :: "word32 \<Rightarrow> word32" where
  "not32 x = 4294967295 - x"

definition shr :: "nat \<Rightarrow> word32 \<Rightarrow> word32" where
  "shr n x = x div 2 ^ n"

definition rotr :: "nat \<Rightarrow> word32 \<Rightarrow> word32" where
  "rotr n x = x div 2 ^ n + (x mod 2 ^ n) * 2 ^ (32 - n)"

definition Ch :: "word32 \<Rightarrow> word32 \<Rightarrow> word32 \<Rightarrow> word32" where
  "Ch e f g = (e AND f) XOR (not32 e AND g)"

definition Maj :: "word32 \<Rightarrow> word32 \<Rightarrow> word32 \<Rightarrow> word32" where
  "Maj a b c = (a AND b) XOR ((a AND c) XOR (b AND c))"

definition bsig0 :: "word32 \<Rightarrow> word32" where
  "bsig0 a = rotr 2 a XOR (rotr 13 a XOR rotr 22 a)"

definition bsig1 :: "word32 \<Rightarrow> word32" where
  "bsig1 e = rotr 6 e XOR (rotr 11 e XOR rotr 25 e)"

definition ssig0 :: "word32 \<Rightarrow> word32" where
  "ssig0 w = rotr 7 w XOR (rotr 18 w XOR shr 3 w)"

definition ssig1 :: "word32 \<Rightarrow> word32" where
  "ssig1 w = rotr 17 w XOR (rotr 19 w XOR shr 10 w)"

text \<open>
  The round constants (the first 32 bits of the fractional parts of the cube roots of the
  first 64 primes) and the initial hash value (of the square roots of the first 8
  primes), in decimal.
\<close>

definition K256 :: "word32 list" where
  "K256 = [
   1116352408, 1899447441, 3049323471, 3921009573, 961987163, 1508970993, 2453635748, 2870763221,
   3624381080, 310598401, 607225278, 1426881987, 1925078388, 2162078206, 2614888103, 3248222580,
   3835390401, 4022224774, 264347078, 604807628, 770255983, 1249150122, 1555081692, 1996064986,
   2554220882, 2821834349, 2952996808, 3210313671, 3336571891, 3584528711, 113926993, 338241895,
   666307205, 773529912, 1294757372, 1396182291, 1695183700, 1986661051, 2177026350, 2456956037,
   2730485921, 2820302411, 3259730800, 3345764771, 3516065817, 3600352804, 4094571909, 275423344,
   430227734, 506948616, 659060556, 883997877, 958139571, 1322822218, 1537002063, 1747873779,
   1955562222, 2024104815, 2227730452, 2361852424, 2428436474, 2756734187, 3204031479, 3329325298]"

definition H256 :: "word32 list" where
  "H256 = [1779033703, 3144134277, 1013904242, 2773480762,
           1359893119, 2600822924, 528734635, 1541459225]"

text \<open>
  The message schedule, one word for each round constant: the window \<open>w\<close> holds the
  sixteen words \<open>W\<^sub>t, \<dots>, W\<^sub>t\<^sub>+\<^sub>1\<^sub>5\<close>.
\<close>

fun schedule :: "word32 list \<Rightarrow> 'a list \<Rightarrow> word32 list" where
  "schedule w [] = []"
| "schedule w (k # ks) =
     hd w # schedule (tl w @ [add32 (add32 (add32 (ssig1 (w ! 14)) (w ! 9)) (ssig0 (w ! 1))) (w ! 0)]) ks"

definition T1 :: "word32 \<Rightarrow> word32 \<Rightarrow> word32 \<Rightarrow> word32 \<Rightarrow> word32 \<Rightarrow> word32 \<Rightarrow> word32" where
  "T1 e f g h k w = add32 (add32 (add32 (add32 h (bsig1 e)) (Ch e f g)) k) w"

definition T2 :: "word32 \<Rightarrow> word32 \<Rightarrow> word32 \<Rightarrow> word32" where
  "T2 a b c = add32 (bsig0 a) (Maj a b c)"

text \<open>One round on the eight working variables, and the 64 rounds of a block.\<close>

fun step :: "word32 list \<Rightarrow> word32 \<Rightarrow> word32 \<Rightarrow> word32 list" where
  "step [a, b, c, d, e, f, g, h] t1 t2 = [add32 t1 t2, a, b, c, add32 d t1, e, f, g]"
| "step s _ _ = s"

fun rounds :: "word32 list \<Rightarrow> (word32 \<times> word32) list \<Rightarrow> word32 list" where
  "rounds [a, b, c, d, e, f, g, h] ((k, w) # kws) =
     rounds (step [a, b, c, d, e, f, g, h] (T1 e f g h k w) (T2 a b c)) kws"
| "rounds s _ = s"

definition compress :: "word32 list \<Rightarrow> word32 list \<Rightarrow> word32 list" where
  "compress hs blk = map2 add32 hs (rounds hs (zip K256 (schedule blk K256)))"

text \<open>Bytes to big-endian words, and the chain over the 16-word blocks.\<close>

fun be32 :: "byte list \<Rightarrow> word32 list" where
  "be32 (a # b # c # d # r) = (((a * 256 + b) * 256 + c) * 256 + d) # be32 r"
| "be32 _ = []"

fun blocks :: "word32 list \<Rightarrow> word32 list \<Rightarrow> word32 list" where
  "blocks hs (w0 # w1 # w2 # w3 # w4 # w5 # w6 # w7 # w8 # w9 # w10 # w11 # w12 # w13 # w14 # w15 # r) =
     blocks (compress hs [w0, w1, w2, w3, w4, w5, w6, w7, w8, w9, w10, w11, w12, w13, w14, w15]) r"
| "blocks hs _ = hs"

text \<open>
  Padding: the byte 0x80, zero bytes up to 56 modulo 64, and the length in bits as eight
  big-endian bytes.
\<close>

definition len64 :: "nat \<Rightarrow> byte list" where
  "len64 n = map (\<lambda>i. (n div 256 ^ i) mod 256) [7, 6, 5, 4, 3, 2, 1, 0]"

definition pad :: "byte list \<Rightarrow> byte list" where
  "pad m = m @ [128] @ replicate ((119 - length m mod 64) mod 64) 0 @ len64 (8 * length m)"

definition word_bytes :: "word32 \<Rightarrow> byte list" where
  "word_bytes w = [w div 16777216, (w div 65536) mod 256, (w div 256) mod 256, w mod 256]"

definition sha256 :: "byte list \<Rightarrow> byte list" where
  "sha256 m = concat (map word_bytes (blocks H256 (be32 (pad m))))"


section \<open>Section identifiers (hash.ts)\<close>

text \<open>\<^verbatim>\<open>new TextEncoder().encode(input)\<close>: UTF-8, two bytes for a code unit from 128 to 255.\<close>

definition utf8 :: "string \<Rightarrow> byte list" where
  "utf8 s = concat (map (\<lambda>c. let n = (of_char c :: nat)
                               in if n < 128 then [n] else [192 + n div 64, 128 + n mod 64]) s)"

text \<open>\<^verbatim>\<open>b.toString(16).padStart(2, "0")\<close> for each byte, joined.\<close>

definition hexdigit :: "nat \<Rightarrow> char" where
  "hexdigit n = ''0123456789abcdef'' ! n"

definition hex :: "byte list \<Rightarrow> string" where
  "hex bs = concat (map (\<lambda>b. [hexdigit (b div 16), hexdigit (b mod 16)]) bs)"

definition hash_input :: "nat \<Rightarrow> string \<Rightarrow> nat \<Rightarrow> string" where
  "hash_input level title occurrenceIndex =
     dec level @ '':'' @ trim (toLowerCase title) @ '':'' @ dec occurrenceIndex"

definition sectionHash :: "nat \<Rightarrow> string \<Rightarrow> nat \<Rightarrow> string" where
  "sectionHash level title occurrenceIndex =
     take 8 (hex (sha256 (utf8 (hash_input level title occurrenceIndex))))"

text \<open>\<^verbatim>\<open>/^[0-9a-f]{8}$/i.test(id)\<close>.\<close>

definition isHexDigit :: "char \<Rightarrow> bool" where
  "isHexDigit c = (c \<in> set ''0123456789abcdefABCDEF'')"

definition isValidId :: "string \<Rightarrow> bool" where
  "isValidId s = (length s = 8 \<and> list_all isHexDigit s)"


section \<open>Documents (types.ts)\<close>

text \<open>
  The field \<^verbatim>\<open>id\<close> of a section is \<open>idS\<close> (\<open>id\<close> is the identity function of HOL); the
  fields \<^verbatim>\<open>id\<close> and \<^verbatim>\<open>lineEnd\<close> of a mutation result are \<open>idM\<close> and \<open>lineEndM\<close>, with
  \<open>None\<close> for \<^verbatim>\<open>undefined\<close>.  A difference of line numbers is an \<^typ>\<open>int\<close>.
\<close>

record Section =
  idS :: string
  level :: nat
  title :: string
  line :: nat
  lineEnd :: nat

record Document =
  sections :: "Section list"
  lines :: "string list"
  frontmatter :: "string option"
  frontmatterEndLine :: nat

datatype ErrorCode = file_not_found | section_not_found | parse_error | invalid_id | io_error

datatype Action = updated | created | appended | emptied | removed

record MutationResult =
  action :: Action
  idM :: string
  lineStart :: nat
  lineEndM :: "nat option"
  linesAdded :: nat
  linesRemoved :: int


section \<open>The parser (parser.ts)\<close>

text \<open>
  \<^verbatim>\<open>HEADER_REGEX = /^(#{1,6})\s+(.+)$/\<close>.  The group \<^verbatim>\<open>#{1,6}\<close> has to be followed by
  white space, so it takes all the leading hashes, and there are one to six of them.
  \<^verbatim>\<open>\s+\<close> is greedy and gives characters back one at a time: \<open>ws_suffixes\<close> lists what
  is left after it, longest match first.  \<^verbatim>\<open>(.+)$\<close> takes a non-empty rest without line
  terminators.  The result is the length of group 1 and group 2.
\<close>

fun ws_suffixes :: "string \<Rightarrow> string list" where
  "ws_suffixes [] = []"
| "ws_suffixes (c # cs) = (if isSpace c then ws_suffixes cs @ [cs] else [])"

definition dot_plus :: "string \<Rightarrow> bool" where
  "dot_plus s = (s \<noteq> [] \<and> list_all (\<lambda>c. \<not> isLineTerminator c) s)"

definition header_match :: "string \<Rightarrow> (nat \<times> string) option" where
  "header_match l =
     (let k = length (takeWhile (\<lambda>c. c = CHR ''#'') l)
      in if 1 \<le> k \<and> k \<le> 6 then map_option (Pair k) (find dot_plus (ws_suffixes (drop k l)))
         else None)"

text \<open>A line that opens or closes a fenced code block.\<close>

definition isFence :: "string \<Rightarrow> bool" where
  "isFence l = (startsWith (trim l) ''```'' \<or> startsWith (trim l) ''~~~'')"

text \<open>The frontmatter loop: the index of the first line from \<open>i\<close> on that is a delimiter.\<close>

fun find_delim :: "string list \<Rightarrow> nat \<Rightarrow> nat option" where
  "find_delim [] i = None"
| "find_delim (l # ls) i = (if trim l = ''---'' then Some i else find_delim ls (Suc i))"

definition parse_frontmatter :: "string list \<Rightarrow> string option \<times> nat" where
  "parse_frontmatter ls =
     (case ls of
        [] \<Rightarrow> (None, 0)
      | l0 # rest \<Rightarrow>
          if trim l0 = ''---'' then
            (case find_delim rest 1 of
               None \<Rightarrow> (None, 0)
             | Some i \<Rightarrow> (Some (join_nl (take (i + 1) ls)), i + 1))
          else (None, 0))"

text \<open>
  The section loop over the lines from index \<open>i\<close> on: \<open>n\<close> is \<^verbatim>\<open>lines.length\<close>, the
  map \<open>occ\<close> the occurrence counters.  The sections come out in the order of the pushes.
\<close>

fun scan :: "nat \<Rightarrow> string list \<Rightarrow> nat \<Rightarrow> bool \<Rightarrow> (string \<rightharpoonup> nat) \<Rightarrow> Section list" where
  "scan n [] i inCodeBlock occ = []"
| "scan n (l # ls) i inCodeBlock occ =
     (if isFence l then scan n ls (Suc i) (\<not> inCodeBlock) occ
      else if inCodeBlock then scan n ls (Suc i) inCodeBlock occ
      else (case header_match l of
              None \<Rightarrow> scan n ls (Suc i) inCodeBlock occ
            | Some (lv, m2) \<Rightarrow>
                (let ttl = trim m2;
                     normalizedKey = dec lv @ '':'' @ trim (toLowerCase ttl);
                     occurrence = (case occ normalizedKey of None \<Rightarrow> 0 | Some c \<Rightarrow> c)
                 in \<lparr>idS = sectionHash lv ttl occurrence, level = lv, title = ttl,
                      line = i + 1, lineEnd = n\<rparr>
                    # scan n ls (Suc i) inCodeBlock (occ(normalizedKey \<mapsto> occurrence + 1)))))"

text \<open>The loop that trims trailing blank lines, never below \<open>lo\<close>.\<close>

function lastContent :: "string list \<Rightarrow> nat \<Rightarrow> nat \<Rightarrow> nat" where
  "lastContent ls lo k =
     (if lo < k \<and> (case nth_opt ls (k - 1) of None \<Rightarrow> False | Some l \<Rightarrow> trim l = [])
      then lastContent ls lo (k - 1) else k)"
  by pat_completeness auto
termination
  by (relation "measure (\<lambda>(ls, lo, k). k)") auto

declare lastContent.simps [simp del]

fun fix_ends :: "string list \<Rightarrow> Section list \<Rightarrow> Section list" where
  "fix_ends ls [] = []"
| "fix_ends ls [s] = [s\<lparr>lineEnd := lastContent ls (line s) (length ls)\<rparr>]"
| "fix_ends ls (s # t # r) = s\<lparr>lineEnd := line t - 1\<rparr> # fix_ends ls (t # r)"

definition parseDocument :: "string \<Rightarrow> Document" where
  "parseDocument content =
     (let ls = split_nl content;
          (fm, startLine) = parse_frontmatter ls
      in \<lparr>sections = fix_ends ls (scan (length ls) (drop startLine ls) startLine False Map.empty),
          lines = ls, frontmatter = fm, frontmatterEndLine = startLine\<rparr>)"

definition findSection :: "Document \<Rightarrow> string \<Rightarrow> Section option" where
  "findSection doc i = find (\<lambda>s. idS s = i) (sections doc)"

definition getSectionEndLine :: "Document \<Rightarrow> Section \<Rightarrow> bool \<Rightarrow> ErrorCode + nat" where
  "getSectionEndLine doc s deep =
     (case findIndex (\<lambda>x. idS x = idS s) (sections doc) of
        None \<Rightarrow> Inl section_not_found
      | Some sectionIndex \<Rightarrow>
          if \<not> deep then Inr (lineEnd s)
          else (case find (\<lambda>x. level x \<le> level s) (drop (sectionIndex + 1) (sections doc)) of
                  Some x \<Rightarrow> Inr (line x - 1)
                | None \<Rightarrow> Inr (lastContent (lines doc) (line s) (length (lines doc)))))"

definition serializeDocument :: "Document \<Rightarrow> string" where
  "serializeDocument doc = join_nl (lines doc)"

text \<open>\<^verbatim>\<open>lines.slice(1, -1)\<close> of the frontmatter block: without its two delimiter lines.\<close>

definition getFrontmatterContent :: "Document \<Rightarrow> string" where
  "getFrontmatterContent doc =
     (case frontmatter doc of
        None \<Rightarrow> []
      | Some fm \<Rightarrow> join_nl (butlast (tl (split_nl fm))))"

definition startsWithHeader :: "string \<Rightarrow> (nat \<times> string) option" where
  "startsWithHeader content =
     (case header_match (hd (split_nl content)) of
        None \<Rightarrow> None
      | Some (lv, m2) \<Rightarrow> Some (lv, trim m2))"


section \<open>The commands (cli.ts)\<close>

text \<open>
  The file system is a map from paths to texts.  \<^verbatim>\<open>readFile\<close> of a missing path fails
  with \<open>file_not_found\<close>; \<^verbatim>\<open>writeFile\<close> stores the text.  The \<open>io_error\<close> failures of
  the platform are not modelled.  An \<^verbatim>\<open>MdError\<close> is modelled by its code.  A command
  returns its result before output formatting (the flag \<^verbatim>\<open>json\<close> only selects the
  formatter) together with the file system it leaves behind.

  \<^verbatim>\<open>expandMagic\<close> reads the clock, so it is a parameter \<open>magic\<close> of the commands: it
  takes the new content and the frontmatter text that \<^verbatim>\<open>parseFrontmatter\<close> receives.
\<close>

type_synonym fs = "string \<rightharpoonup> string"

definition readFile :: "fs \<Rightarrow> string \<Rightarrow> ErrorCode + string" where
  "readFile files path = (case files path of None \<Rightarrow> Inl file_not_found | Some c \<Rightarrow> Inr c)"

definition writeFile :: "fs \<Rightarrow> string \<Rightarrow> string \<Rightarrow> fs" where
  "writeFile files path content = files(path \<mapsto> content)"

text \<open>\<^verbatim>\<open>xs.slice(a, b)\<close> for non-negative \<open>a\<close> and \<open>b\<close>.\<close>

definition slice :: "nat \<Rightarrow> nat \<Rightarrow> 'a list \<Rightarrow> 'a list" where
  "slice a b xs = take (b - a) (drop a xs)"

definition getSectionContent :: "Document \<Rightarrow> Section \<Rightarrow> bool \<Rightarrow> ErrorCode + string" where
  "getSectionContent doc s deep =
     (case getSectionEndLine doc s deep of
        Inl e \<Rightarrow> Inl e
      | Inr endLine \<Rightarrow> Inr (join_nl (slice (line s) endLine (lines doc))))"

definition cmdRead :: "fs \<Rightarrow> string \<Rightarrow> string \<Rightarrow> bool \<Rightarrow> ErrorCode + Section \<times> string \<times> nat" where
  "cmdRead files file i deep =
     (if \<not> isValidId i then Inl invalid_id
      else case readFile files file of
        Inl e \<Rightarrow> Inl e
      | Inr content \<Rightarrow>
          (let doc = parseDocument content
           in case findSection doc i of
                None \<Rightarrow> Inl section_not_found
              | Some s \<Rightarrow>
                  (case getSectionEndLine doc s deep of
                     Inl e \<Rightarrow> Inl e
                   | Inr endLine \<Rightarrow>
                       (case getSectionContent doc s deep of
                          Inl e \<Rightarrow> Inl e
                        | Inr sectionContent \<Rightarrow> Inr (s, sectionContent, endLine)))))"

text \<open>The lines that \<^verbatim>\<open>cmdWrite\<close> puts under the header.\<close>

definition write_lines :: "string \<Rightarrow> string list" where
  "write_lines expandedContent =
     (let newLines = (if expandedContent = [] then [] else split_nl expandedContent)
      in if newLines \<noteq> [] \<and> trim (hd newLines) \<noteq> [] then [] # newLines else newLines)"

definition cmdWrite ::
  "(string \<Rightarrow> string \<Rightarrow> string) \<Rightarrow> fs \<Rightarrow> string \<Rightarrow> string \<Rightarrow> string \<Rightarrow> bool
    \<Rightarrow> (ErrorCode + MutationResult) \<times> fs" where
  "cmdWrite magic files file i newContent deep =
     (if \<not> isValidId i then (Inl invalid_id, files)
      else case readFile files file of
        Inl e \<Rightarrow> (Inl e, files)
      | Inr fileContent \<Rightarrow>
          (let doc = parseDocument fileContent
           in case findSection doc i of
                None \<Rightarrow> (Inl section_not_found, files)
              | Some s \<Rightarrow>
                  (let expandedContent = magic newContent (getFrontmatterContent doc)
                   in case getSectionEndLine doc s deep of
                        Inl e \<Rightarrow> (Inl e, files)
                      | Inr endLine \<Rightarrow>
                          (let oldLineCount = int endLine - int (line s);
                               newLines = write_lines expandedContent;
                               beforeSection = take (line s) (lines doc);
                               afterSection = drop endLine (lines doc);
                               doc' = doc\<lparr>lines := beforeSection @ newLines @ afterSection\<rparr>
                           in (Inr \<lparr>action = updated, idM = idS s, lineStart = line s,
                                    lineEndM = Some (line s + length newLines),
                                    linesAdded = length newLines, linesRemoved = oldLineCount\<rparr>,
                               writeFile files file (serializeDocument doc'))))))"

text \<open>
  The insertion point of \<^verbatim>\<open>cmdAppend\<close> and the section it is relative to, if any.
\<close>

definition insert_point ::
  "Document \<Rightarrow> string option \<Rightarrow> bool \<Rightarrow> bool \<Rightarrow> ErrorCode + nat \<times> Section option" where
  "insert_point doc io deep before =
     (case io of
        None \<Rightarrow> Inr (if before then frontmatterEndLine doc else length (lines doc), None)
      | Some i \<Rightarrow>
          if \<not> isValidId i then Inl invalid_id
          else (case findSection doc i of
                  None \<Rightarrow> Inl section_not_found
                | Some s \<Rightarrow>
                    if before then Inr (line s - 1, Some s)
                    else (case getSectionEndLine doc s deep of
                            Inl e \<Rightarrow> Inl e
                          | Inr endLine \<Rightarrow> Inr (endLine, Some s))))"

definition cmdAppend ::
  "(string \<Rightarrow> string \<Rightarrow> string) \<Rightarrow> fs \<Rightarrow> string \<Rightarrow> string option \<Rightarrow> string \<Rightarrow> bool \<Rightarrow> bool
    \<Rightarrow> (ErrorCode + MutationResult) \<times> fs" where
  "cmdAppend magic files file io newContent deep before =
     (case readFile files file of
        Inl e \<Rightarrow> (Inl e, files)
      | Inr fileContent \<Rightarrow>
          (let doc = parseDocument fileContent;
               expandedContent = magic newContent (getFrontmatterContent doc);
               newLines0 = split_nl expandedContent
           in case insert_point doc io deep before of
                Inl e \<Rightarrow> (Inl e, files)
              | Inr (insertLine, section) \<Rightarrow>
                  (let newLines =
                         (if \<not> before \<and> 0 < insertLine
                             \<and> (case nth_opt (lines doc) (insertLine - 1) of
                                   None \<Rightarrow> True | Some l \<Rightarrow> trim l \<noteq> [])
                             \<and> (case nth_opt newLines0 0 of
                                   None \<Rightarrow> True | Some l \<Rightarrow> trim l \<noteq> [])
                          then [] # newLines0 else newLines0);
                       doc' = doc\<lparr>lines := take insertLine (lines doc) @ newLines
                                              @ drop insertLine (lines doc)\<rparr>;
                       files' = writeFile files file (serializeDocument doc');
                       headerInfo = startsWithHeader expandedContent;
                       act = (if headerInfo = None then appended else created);
                       resultId0 = (case section of None \<Rightarrow> ''-'' | Some s \<Rightarrow> idS s);
                       resultId =
                         (case headerInfo of
                            None \<Rightarrow> resultId0
                          | Some (lv, ttl) \<Rightarrow>
                              (case find (\<lambda>s. line s = insertLine + 1 \<and> title s = ttl)
                                      (sections (parseDocument (serializeDocument doc'))) of
                                 None \<Rightarrow> resultId0
                               | Some newSection \<Rightarrow> idS newSection))
                   in (Inr \<lparr>action = act, idM = resultId, lineStart = insertLine + 1,
                            lineEndM = (if headerInfo = None then None
                                        else Some (insertLine + length newLines)),
                            linesAdded = length newLines, linesRemoved = 0\<rparr>,
                       files'))))"

definition cmdEmpty ::
  "fs \<Rightarrow> string \<Rightarrow> string \<Rightarrow> bool \<Rightarrow> (ErrorCode + MutationResult) \<times> fs" where
  "cmdEmpty files file i deep =
     (if \<not> isValidId i then (Inl invalid_id, files)
      else case readFile files file of
        Inl e \<Rightarrow> (Inl e, files)
      | Inr fileContent \<Rightarrow>
          (let doc = parseDocument fileContent
           in case findSection doc i of
                None \<Rightarrow> (Inl section_not_found, files)
              | Some s \<Rightarrow>
                  (case getSectionEndLine doc s deep of
                     Inl e \<Rightarrow> (Inl e, files)
                   | Inr endLine \<Rightarrow>
                       (let removedCount = int endLine - int (line s);
                            beforeContent = take (line s) (lines doc);
                            afterContent = drop endLine (lines doc);
                            doc' = doc\<lparr>lines := beforeContent @ afterContent\<rparr>
                        in (Inr \<lparr>action = emptied, idM = idS s, lineStart = line s,
                                 lineEndM = None, linesAdded = 0, linesRemoved = removedCount\<rparr>,
                            writeFile files file (serializeDocument doc'))))))"

definition cmdRemove ::
  "fs \<Rightarrow> string \<Rightarrow> string \<Rightarrow> (ErrorCode + MutationResult) \<times> fs" where
  "cmdRemove files file i =
     (if \<not> isValidId i then (Inl invalid_id, files)
      else case readFile files file of
        Inl e \<Rightarrow> (Inl e, files)
      | Inr fileContent \<Rightarrow>
          (let doc = parseDocument fileContent
           in case findSection doc i of
                None \<Rightarrow> (Inl section_not_found, files)
              | Some s \<Rightarrow>
                  (case getSectionEndLine doc s True of
                     Inl e \<Rightarrow> (Inl e, files)
                   | Inr endLine \<Rightarrow>
                       (let removedCount = int endLine - int (line s) + 1;
                            beforeSection = take (line s - 1) (lines doc);
                            afterSection = drop endLine (lines doc);
                            doc' = doc\<lparr>lines := beforeSection @ afterSection\<rparr>
                        in (Inr \<lparr>action = removed, idM = idS s, lineStart = line s,
                                 lineEndM = None, linesAdded = 0, linesRemoved = removedCount\<rparr>,
                            writeFile files file (serializeDocument doc'))))))"


section \<open>Notions of the specification\<close>

text \<open>
  The fence flag after the lines \<open>ls\<close>: it starts unset and every fence line toggles it.
\<close>

definition fence_flag :: "string list \<Rightarrow> bool" where
  "fence_flag ls = odd (length (filter isFence ls))"

text \<open>
  The end of the file with the trailing all-whitespace lines trimmed back, but never below
  line \<open>lo\<close>.
\<close>

definition eof_trimmed :: "string list \<Rightarrow> nat \<Rightarrow> nat" where
  "eof_trimmed ls lo = max lo (length (dropWhile (\<lambda>l. trim l = []) (rev ls)))"

text \<open>
  The deep end of the section at position \<open>i\<close> of the document: the line before the first
  later section whose level is at most its own, or else the trimmed end of the file.
\<close>

definition deep_end :: "Document \<Rightarrow> nat \<Rightarrow> nat" where
  "deep_end doc i =
     (case find (\<lambda>x. level x \<le> level (sections doc ! i)) (drop (Suc i) (sections doc)) of
        Some x \<Rightarrow> line x - 1
      | None \<Rightarrow> eof_trimmed (lines doc) (line (sections doc ! i)))"

text \<open>Eight words of 32 bits: a hash value of SHA-256.\<close>

definition words8 :: "word32 list \<Rightarrow> bool" where
  "words8 hs = (length hs = 8 \<and> list_all (\<lambda>w. w < 4294967296) hs)"

text \<open>
  The lines that a write puts under the header as the claim words it: the new content
  split on newlines, with a blank line before it when it is non-empty and its first line
  is non-blank.
\<close>

definition claimed_write_lines :: "string \<Rightarrow> string list" where
  "claimed_write_lines c =
     (if c \<noteq> [] \<and> trim (hd (split_nl c)) \<noteq> [] then [] # split_nl c else split_nl c)"

text \<open>
  The normalized title, the key of the occurrence counters, the value of a counter, and
  the occurrence index of the section at position \<open>j\<close>: the number of earlier sections
  with the same level and the same normalized title.
\<close>

definition normalizeTitle :: "string \<Rightarrow> string" where
  "normalizeTitle ttl = trim (toLowerCase ttl)"

definition section_key :: "Section \<Rightarrow> string" where
  "section_key s = dec (level s) @ '':'' @ trim (toLowerCase (title s))"

definition counter :: "(string \<rightharpoonup> nat) \<Rightarrow> string \<Rightarrow> nat" where
  "counter occ k = (case occ k of None \<Rightarrow> 0 | Some c \<Rightarrow> c)"

definition occurrence_index :: "Section list \<Rightarrow> nat \<Rightarrow> nat" where
  "occurrence_index ss j =
     length (filter (\<lambda>x. level x = level (ss ! j) \<and> normalizeTitle (title x) = normalizeTitle (title (ss ! j)))
               (take j ss))"

text \<open>Twenty-four headers with one title.\<close>

definition same_title_doc :: string where
  "same_title_doc = join_nl (replicate 24 ''# t34743085'')"

text \<open>Two titles whose identifiers agree, in one document.\<close>

definition twin_doc :: string where
  "twin_doc = join_nl [''# s47760'', ''# s96294'', ''x'', ''# z'']"


section \<open>Properties\<close>

lemma join_split: "join_nl (split_nl t) = t"
proof (induction t)
  case Nil
  show ?case by simp
next
  case (Cons c cs)
  show ?case
  proof (cases "c = CHR 0x0A")
    case True
    with Cons show ?thesis by (cases "split_nl cs") auto
  next
    case False
    with Cons show ?thesis
      by (cases "split_nl cs"; cases "tl (split_nl cs)") auto
  qed
qed

lemma lines_parseDocument: "lines (parseDocument t) = split_nl t"
  by (simp add: parseDocument_def Let_def split: prod.splits)


subsection \<open>Round trip\<close>

text \<open>
  C1.  For every text \<open>t\<close>, serializing the parse of the serialization of the parse of
  \<open>t\<close> gives the same text as serializing the parse of \<open>t\<close>, where serializing joins the
  lines of the document with the newline character.
\<close>

theorem roundtrip_serialize_parse:
  "serializeDocument (parseDocument (serializeDocument (parseDocument t)))
     = serializeDocument (parseDocument t)"
  by (simp add: serializeDocument_def lines_parseDocument join_split)

lemma find_delim_bounds: "find_delim ls i = Some j \<Longrightarrow> i \<le> j \<and> j < i + length ls"
  by (induction ls arbitrary: i) (force split: if_splits)+

lemma parse_frontmatter_le: "snd (parse_frontmatter ls) \<le> length ls"
  by (auto simp: parse_frontmatter_def split: list.splits option.splits dest!: find_delim_bounds)

lemma scan_line_bounds:
  "s \<in> set (scan n ls i b occ) \<Longrightarrow> i < line s \<and> line s \<le> i + length ls"
proof (induction ls arbitrary: i b occ)
  case Nil
  then show ?case by simp
next
  case (Cons l ls)
  then show ?case
    by (fastforce simp: Let_def split: if_splits option.splits prod.splits)
qed

lemma scan_sorted: "sorted_wrt (\<lambda>a b. line a < line b) (scan n ls i b occ)"
proof (induction ls arbitrary: i b occ)
  case Nil
  show ?case by simp
next
  case (Cons l ls)
  show ?case
    using Cons.IH scan_line_bounds [of _ n ls "Suc i"]
    by (auto simp: Let_def split: option.splits prod.splits)
qed

lemma length_fix_ends [simp]: "length (fix_ends ls ss) = length ss"
  by (induction ls ss rule: fix_ends.induct) auto

lemma fix_ends_nth_inner:
  "Suc i < length ss \<Longrightarrow> fix_ends ls ss ! i = (ss ! i)\<lparr>lineEnd := line (ss ! Suc i) - 1\<rparr>"
proof (induction ls ss arbitrary: i rule: fix_ends.induct)
  case (3 ls s t r)
  then show ?case by (cases i) auto
qed auto

lemma fix_ends_nth_last:
  "Suc i = length ss \<Longrightarrow>
   fix_ends ls ss ! i = (ss ! i)\<lparr>lineEnd := lastContent ls (line (ss ! i)) (length ls)\<rparr>"
proof (induction ls ss arbitrary: i rule: fix_ends.induct)
  case (3 ls s t r)
  then show ?case by (cases i) auto
qed auto

lemma fix_ends_nth_fields:
  assumes "i < length ss"
  shows "idS (fix_ends ls ss ! i) = idS (ss ! i)" "level (fix_ends ls ss ! i) = level (ss ! i)"
    "title (fix_ends ls ss ! i) = title (ss ! i)" "line (fix_ends ls ss ! i) = line (ss ! i)"
  using assms fix_ends_nth_inner [of i ss ls] fix_ends_nth_last [of i ss ls]
  by (cases "Suc i < length ss"; force)+

lemma lastContent_bounds: "lo \<le> k \<Longrightarrow> lo \<le> lastContent ls lo k \<and> lastContent ls lo k \<le> k"
proof (induction ls lo k rule: lastContent.induct)
  case (1 ls lo k)
  show ?case
  proof (cases "lo < k \<and> (case nth_opt ls (k - 1) of None \<Rightarrow> False | Some l \<Rightarrow> trim l = [])")
    case True
    then have eq: "lastContent ls lo k = lastContent ls lo (k - 1)"
      by (subst lastContent.simps) simp
    from True have "lo \<le> k - 1" by linarith
    with 1 True have "lo \<le> lastContent ls lo (k - 1) \<and> lastContent ls lo (k - 1) \<le> k - 1"
      by blast
    with eq show ?thesis by linarith
  next
    case False
    then have "lastContent ls lo k = k"
      by (subst lastContent.simps) auto
    with 1 show ?thesis by simp
  qed
qed

lemma parse_sections:
  "sections (parseDocument t) =
     fix_ends (split_nl t)
       (scan (length (split_nl t))
          (drop (frontmatterEndLine (parseDocument t)) (split_nl t))
          (frontmatterEndLine (parseDocument t)) False Map.empty)"
  by (simp add: parseDocument_def Let_def split: prod.splits)

lemma frontmatterEndLine_le: "frontmatterEndLine (parseDocument t) \<le> length (split_nl t)"
  using parse_frontmatter_le [of "split_nl t"]
  by (auto simp: parseDocument_def Let_def split: prod.splits)

lemma scan_parse_bounds:
  assumes "s \<in> set (scan n (drop (frontmatterEndLine (parseDocument t)) (split_nl t))
                       (frontmatterEndLine (parseDocument t)) b occ)"
  shows "frontmatterEndLine (parseDocument t) < line s" "line s \<le> length (split_nl t)"
  using scan_line_bounds [OF assms] frontmatterEndLine_le [of t] by auto


subsection \<open>Invariants of the parsed document\<close>

lemmas parse_ev = parseDocument_def parse_frontmatter_def trim_def isSpace_def isFence_def
  startsWith_def header_match_def dot_plus_def isLineTerminator_def Let_def lastContent.simps
  nth_opt_def toLowerCase_def lowerChar_def dec.simps digit_def char_of_def bit_Suc_0_iff

text \<open>
  C2.  For every text \<open>t\<close>, the sections of \<open>parseDocument t\<close> are sorted strictly
  ascending by \<open>line\<close> (no two sections share a line), every section \<open>s\<close> has
  \<open>line s \<le> lineEnd s\<close>, and for consecutive sections the \<open>lineEnd\<close> of the first is
  below the \<open>line\<close> of the second.
\<close>

theorem parse_invariants:
  fixes t :: string
  defines "ss \<equiv> sections (parseDocument t)"
  shows "sorted_wrt (\<lambda>a b. line a < line b) ss
       \<and> distinct (map line ss)
       \<and> (\<forall>s \<in> set ss. line s \<le> lineEnd s)
       \<and> (\<forall>i. Suc i < length ss \<longrightarrow> lineEnd (ss ! i) < line (ss ! Suc i))"
proof -
  define start where "start = frontmatterEndLine (parseDocument t)"
  define raw where "raw = scan (length (split_nl t)) (drop start (split_nl t)) start False Map.empty"
  have ss: "ss = fix_ends (split_nl t) raw"
    by (simp add: ss_def raw_def start_def parse_sections)
  have len: "length ss = length raw" by (simp add: ss)
  have raw_sorted: "sorted_wrt (\<lambda>a b. line a < line b) raw"
    by (simp add: raw_def scan_sorted)
  have raw_le: "line s \<le> length (split_nl t)" if "s \<in> set raw" for s
    using that scan_parse_bounds(2) [of s _ t] by (simp add: raw_def start_def)
  have line_eq: "line (ss ! i) = line (raw ! i)" if "i < length raw" for i
    using that by (simp add: ss fix_ends_nth_fields)
  have lt: "line (raw ! i) < line (raw ! j)" if "i < j" "j < length raw" for i j
    using raw_sorted that by (simp add: sorted_wrt_iff_nth_less)
  have sorted: "sorted_wrt (\<lambda>a b. line a < line b) ss"
    unfolding sorted_wrt_iff_nth_less using lt line_eq len by auto
  have dist: "distinct (map line ss)"
    unfolding distinct_conv_nth using lt line_eq len
    by (metis length_map less_irrefl_nat nat_neq_iff nth_map)
  have ends: "line (ss ! i) \<le> lineEnd (ss ! i)" if i: "i < length ss" for i
  proof (cases "Suc i < length raw")
    case True
    with lt [of i "Suc i"] show ?thesis
      by (simp add: ss fix_ends_nth_inner)
  next
    case False
    with i len have last: "Suc i = length raw" by simp
    have "raw ! i \<in> set raw" using i len by simp
    then have "line (raw ! i) \<le> length (split_nl t)" by (rule raw_le)
    from lastContent_bounds [OF this, of "split_nl t"] last show ?thesis
      by (simp add: ss fix_ends_nth_last)
  qed
  have ends': "\<forall>s \<in> set ss. line s \<le> lineEnd s"
    using ends by (auto simp: in_set_conv_nth)
  have cons: "lineEnd (ss ! i) < line (ss ! Suc i)" if "Suc i < length ss" for i
  proof -
    from that len have i: "Suc i < length raw" by simp
    have "0 < line (raw ! Suc i)" using lt [of i "Suc i"] i by simp
    with i show ?thesis
      by (simp add: ss fix_ends_nth_inner fix_ends_nth_fields)
  qed
  from sorted dist ends' cons show ?thesis by blast
qed

theorem parse_invariants_witness:
  "Suc 0 < length (sections (parseDocument (join_nl [''# A'', ''x'', ''## B''])))
   \<and> lineEnd (sections (parseDocument (join_nl [''# A'', ''x'', ''## B''])) ! 0)
       < line (sections (parseDocument (join_nl [''# A'', ''x'', ''## B''])) ! Suc 0)"
proof -
  have "Suc 0 < length (sections (parseDocument (join_nl [''# A'', ''x'', ''## B''])))"
    by (simp add: parse_ev)
  with parse_invariants [of "join_nl [''# A'', ''x'', ''## B'']"] show ?thesis
    by blast
qed

subsection \<open>Fenced code\<close>

lemma fence_flag_Cons: "fence_flag (l # ls) = (if isFence l then \<not> fence_flag ls else fence_flag ls)"
  by (simp add: fence_flag_def)

lemma scan_fence:
  "s \<in> set (scan n ls i b occ) \<Longrightarrow>
   \<exists>j<length ls. line s = Suc (i + j) \<and> \<not> isFence (ls ! j) \<and> b = fence_flag (take j ls)"
proof (induction ls arbitrary: i b occ)
  case Nil
  then show ?case by simp
next
  case (Cons l ls)
  show ?case
  proof (cases "isFence l")
    case True
    with Cons.prems have "s \<in> set (scan n ls (Suc i) (\<not> b) occ)" by simp
    from Cons.IH [OF this] obtain j where j: "j < length ls" "line s = Suc (Suc i + j)"
      "\<not> isFence (ls ! j)" "(\<not> b) = fence_flag (take j ls)" by blast
    with True show ?thesis
      by (intro exI [of _ "Suc j"]) (auto simp: fence_flag_Cons)
  next
    case nofence: False
    show ?thesis
    proof (cases "s \<in> set (scan n ls (Suc i) b occ) \<or>
                  (\<exists>occ'. s \<in> set (scan n ls (Suc i) b occ'))")
      case True
      then obtain occ' where "s \<in> set (scan n ls (Suc i) b occ')" by blast
      from Cons.IH [OF this] obtain j where j: "j < length ls" "line s = Suc (Suc i + j)"
        "\<not> isFence (ls ! j)" "b = fence_flag (take j ls)" by blast
      with nofence show ?thesis
        by (intro exI [of _ "Suc j"]) (auto simp: fence_flag_Cons)
    next
      case False
      with Cons.prems nofence have "\<not> b \<and> line s = Suc i"
        by (auto simp: Let_def split: if_splits option.splits prod.splits)
      with nofence show ?thesis
        by (intro exI [of _ 0]) (auto simp: fence_flag_def)
    qed
  qed
qed

lemma fix_ends_map_line: "map line (fix_ends ls ss) = map line ss"
  by (rule nth_equalityI) (simp_all add: fix_ends_nth_fields)

lemma parse_section_lines:
  "line ` set (sections (parseDocument t)) =
   line ` set (scan (length (split_nl t))
          (drop (frontmatterEndLine (parseDocument t)) (split_nl t))
          (frontmatterEndLine (parseDocument t)) False Map.empty)"
  using fix_ends_map_line [of "split_nl t"] by (metis parse_sections set_map)

text \<open>
  C7.  A line inside a fenced code block is never recognised as a header: the fence flag
  is toggled by every line whose trimmed content starts with three backticks or three
  tildes (the lines before the end of the frontmatter are not scanned), and no section is
  produced at a fence line or at a line that is reached with the flag set.  In particular
  the five lines \<^verbatim>\<open># A\<close>, a fence, \<^verbatim>\<open># not a header\<close>, a fence, \<^verbatim>\<open>## B\<close> give exactly two
  sections, titled A and B.
\<close>

theorem fenced_lines_are_not_headers:
  assumes "start = frontmatterEndLine (parseDocument t)" and "ls = lines (parseDocument t)"
    and "start \<le> j" and "j < length ls"
    and "fence_flag (take (j - start) (drop start ls)) \<or> isFence (ls ! j)"
  shows "(\<forall>s \<in> set (sections (parseDocument t)). line s \<noteq> Suc j)
       \<and> map title (sections (parseDocument
            (join_nl [''# A'', ''```'', ''# not a header'', ''```'', ''## B'']))) = [''A'', ''B'']"
proof
  show "\<forall>s \<in> set (sections (parseDocument t)). line s \<noteq> Suc j"
  proof
    fix s
    assume "s \<in> set (sections (parseDocument t))"
    then have "line s \<in> line ` set (scan (length (split_nl t)) (drop start (split_nl t))
          start False Map.empty)"
      using parse_section_lines [of t] assms(1) by blast
    then obtain r where r: "r \<in> set (scan (length (split_nl t)) (drop start (split_nl t))
          start False Map.empty)" "line r = line s" by auto
    from scan_fence [OF r(1)] obtain k where k: "k < length (drop start (split_nl t))"
      "line r = Suc (start + k)" "\<not> isFence (drop start (split_nl t) ! k)"
      "False = fence_flag (take k (drop start (split_nl t)))" by blast
    show "line s \<noteq> Suc j"
    proof
      assume "line s = Suc j"
      with r k assms(3) have "k = j - start" "start + k = j" by auto
      with k assms show False
        by (auto simp: lines_parseDocument)
    qed
  qed
next
  show "map title (sections (parseDocument
            (join_nl [''# A'', ''```'', ''# not a header'', ''```'', ''## B'']))) = [''A'', ''B'']"
    by (simp add: parse_ev)
qed

theorem fenced_lines_are_not_headers_witness:
  "fence_flag (take 2 [''# A'', ''```'', ''# not a header'', ''```'', ''## B''])
   \<and> 3 \<notin> line ` set (sections (parseDocument
          (join_nl [''# A'', ''```'', ''# not a header'', ''```'', ''## B''])))"
proof -
  let ?t = "join_nl [''# A'', ''```'', ''# not a header'', ''```'', ''## B'']"
  have a: "0 = frontmatterEndLine (parseDocument ?t)"
    by (simp add: parse_ev)
  have b: "[''# A'', ''```'', ''# not a header'', ''```'', ''## B''] = lines (parseDocument ?t)"
    by (simp add: parse_ev)
  have c: "fence_flag (take 2 [''# A'', ''```'', ''# not a header'', ''```'', ''## B''])"
    by (simp add: fence_flag_def parse_ev)
  then have d: "fence_flag (take (2 - 0) (drop 0 [''# A'', ''```'', ''# not a header'', ''```'', ''## B'']))
      \<or> isFence ([''# A'', ''```'', ''# not a header'', ''```'', ''## B''] ! 2)"
    by simp
  from fenced_lines_are_not_headers [OF a b _ _ d] c show ?thesis
    by (auto simp: numeral_3_eq_3)
qed

subsection \<open>Evaluating the digest\<close>

lemma replicate_num: "replicate (numeral k) x = x # replicate (pred_numeral k) x"
  by (simp add: numeral_eq_Suc)

lemma rotr_consts:
  "rotr 2 x = x div 4 + (x mod 4) * 1073741824"
  "rotr 13 x = x div 8192 + (x mod 8192) * 524288"
  "rotr 22 x = x div 4194304 + (x mod 4194304) * 1024"
  "rotr 6 x = x div 64 + (x mod 64) * 67108864"
  "rotr 11 x = x div 2048 + (x mod 2048) * 2097152"
  "rotr 25 x = x div 33554432 + (x mod 33554432) * 128"
  "rotr 7 x = x div 128 + (x mod 128) * 33554432"
  "rotr 18 x = x div 262144 + (x mod 262144) * 16384"
  "rotr 17 x = x div 131072 + (x mod 131072) * 32768"
  "rotr 19 x = x div 524288 + (x mod 524288) * 8192"
  "shr 3 x = x div 8"
  "shr 10 x = x div 1024"
  by (simp_all add: rotr_def shr_def)

lemmas sha_ev = add32_def not32_def Ch_def Maj_def bsig0_def bsig1_def ssig0_def ssig1_def
  T1_def T2_def sha256_def pad_def len64_def compress_def K256_def H256_def word_bytes_def
  replicate_num rotr_consts

lemmas hash_ev = sha_ev utf8_def hex_def hexdigit_def sectionHash_def hash_input_def dec.simps
  digit_def trim_def isSpace_def toLowerCase_def lowerChar_def char_of_def bit_Suc_0_iff Let_def

lemma sha256_abc:
  "hex (sha256 (utf8 ''abc'')) =
     ''ba7816bf8f01cfea414140de5dae2223b00361a396177a9cb410ff61f20015ad''"
  by (simp add: sha_ev utf8_def hex_def hexdigit_def)

lemma hash_s47760: "sectionHash (Suc 0) ''s47760'' 0 = ''d47a1e2e''"
  by (simp add: hash_ev)

lemma hash_s96294: "sectionHash (Suc 0) ''s96294'' 0 = ''d47a1e2e''"
  by (simp add: hash_ev)

lemma hash_t_5: "sectionHash (Suc 0) ''t34743085'' 5 = ''eb8dc625''"
  by (simp add: hash_ev)

lemma hash_t_23: "sectionHash (Suc 0) ''t34743085'' 23 = ''eb8dc625''"
  by (simp add: hash_ev)

lemma hash_Title_0: "sectionHash 1 ''Title'' 0 = ''ffec1a58''"
  by (simp add: hash_ev)

lemma hash_Title_1: "sectionHash 1 ''Title'' 1 = ''0f356d10''"
  by (simp add: hash_ev)

lemma hash_Title_2: "sectionHash 2 ''Title'' 0 = ''3bfad917''"
  by (simp add: hash_ev)

lemma hash_Other: "sectionHash 1 ''Other'' 0 = ''1c518a5c''"
  by (simp add: hash_ev)

subsection \<open>Section boundaries\<close>

lemma lastContent_take:
  "k \<le> length ls \<Longrightarrow> lo \<le> k \<Longrightarrow>
   lastContent ls lo k = max lo (length (dropWhile (\<lambda>l. trim l = []) (rev (take k ls))))"
proof (induction ls lo k rule: lastContent.induct)
  case (1 ls lo k)
  show ?case
  proof (cases "lo < k")
    case False
    with 1 have "lo = k" by simp
    moreover have "length (dropWhile (\<lambda>l. trim l = []) (rev (take k ls))) \<le> k"
      using length_dropWhile_le [of "\<lambda>l. trim l = []" "rev (take k ls)"] by simp
    moreover from False have "lastContent ls lo k = k"
      using \<open>lo = k\<close> by (subst lastContent.simps) simp
    ultimately show ?thesis by simp
  next
    case True
    then obtain k' where k': "k = Suc k'" by (cases k) auto
    with 1 have lt: "k' < length ls" by simp
    then have tk: "rev (take k ls) = ls ! k' # rev (take k' ls)"
      by (simp add: k' take_Suc_conv_app_nth)
    from lt have nth: "nth_opt ls (k - 1) = Some (ls ! k')"
      by (simp add: nth_opt_def k')
    show ?thesis
    proof (cases "trim (ls ! k') = []")
      case blank: True
      with True nth have eq: "lastContent ls lo k = lastContent ls lo (k - 1)"
        by (subst lastContent.simps) simp
      from True have "lo \<le> k - 1" by linarith
      moreover from 1 have "k - 1 \<le> length ls" by simp
      ultimately have "lastContent ls lo (k - 1) =
          max lo (length (dropWhile (\<lambda>l. trim l = []) (rev (take (k - 1) ls))))"
        using 1 True nth blank by simp
      with eq blank tk show ?thesis by (simp add: k')
    next
      case False
      with nth have "lastContent ls lo k = k"
        by (subst lastContent.simps) simp
      moreover from False tk 1 k' lt have "length (dropWhile (\<lambda>l. trim l = []) (rev (take k ls))) = k"
        by simp
      ultimately show ?thesis using True by simp
    qed
  qed
qed

lemma lastContent_eof: "lo \<le> length ls \<Longrightarrow> lastContent ls lo (length ls) = eof_trimmed ls lo"
  using lastContent_take [of "length ls" ls lo] by (simp add: eof_trimmed_def)

lemma findIndex_None: "findIndex p xs = None \<longleftrightarrow> list_all (\<lambda>x. \<not> p x) xs"
  by (induction xs) auto

lemma findIndex_Some_less: "findIndex p xs = Some i \<Longrightarrow> i < length xs \<and> p (xs ! i)"
  by (induction xs arbitrary: i) (auto split: if_splits)

lemma section_line_le:
  assumes "i < length (sections (parseDocument t))"
  shows "line (sections (parseDocument t) ! i) \<le> length (split_nl t)"
proof -
  define raw where "raw = scan (length (split_nl t))
       (drop (frontmatterEndLine (parseDocument t)) (split_nl t))
       (frontmatterEndLine (parseDocument t)) False Map.empty"
  have ss: "sections (parseDocument t) = fix_ends (split_nl t) raw"
    by (simp add: raw_def parse_sections)
  with assms have i: "i < length raw" by simp
  then have "raw ! i \<in> set raw" by simp
  then have "line (raw ! i) \<le> length (split_nl t)"
    unfolding raw_def by (rule scan_parse_bounds(2))
  with i show ?thesis by (simp add: ss fix_ends_nth_fields)
qed

lemma section_lineEnd:
  assumes "i < length (sections (parseDocument t))"
  shows "lineEnd (sections (parseDocument t) ! i) =
     (if Suc i < length (sections (parseDocument t))
      then line (sections (parseDocument t) ! Suc i) - 1
      else eof_trimmed (split_nl t) (line (sections (parseDocument t) ! i)))"
proof -
  define raw where "raw = scan (length (split_nl t))
       (drop (frontmatterEndLine (parseDocument t)) (split_nl t))
       (frontmatterEndLine (parseDocument t)) False Map.empty"
  have ss: "sections (parseDocument t) = fix_ends (split_nl t) raw"
    by (simp add: raw_def parse_sections)
  with assms have i: "i < length raw" by simp
  show ?thesis
  proof (cases "Suc i < length raw")
    case True
    then show ?thesis
      by (simp add: ss fix_ends_nth_inner fix_ends_nth_fields)
  next
    case False
    with i have last: "Suc i = length raw" by simp
    have "line (raw ! i) \<le> length (split_nl t)"
      using section_line_le [OF assms] i by (simp add: ss fix_ends_nth_fields)
    with last show ?thesis
      by (simp add: ss fix_ends_nth_last lastContent_eof)
  qed
qed

text \<open>
  C3, amended.  For every parsed document and its section \<open>s\<close> at position \<open>i\<close>: the
  shallow end line is \<open>lineEnd s\<close>, the line before the next header of any level (for the
  last section the trimmed end of the file); and when \<open>s\<close> is the first section of the
  document that carries its identifier, the deep end line is the line before the first
  later section whose level is at most that of \<open>s\<close>, or, when there is none, the end of
  the file with the trailing all-whitespace lines trimmed back but never below \<open>line s\<close>.
\<close>

theorem getSectionEndLine_first_id:
  assumes "doc = parseDocument t" and "i < length (sections doc)" and "s = sections doc ! i"
  shows "getSectionEndLine doc s False = Inr (lineEnd s)
       \<and> lineEnd s = (if Suc i < length (sections doc) then line (sections doc ! Suc i) - 1
                      else eof_trimmed (lines doc) (line s))
       \<and> (findIndex (\<lambda>x. idS x = idS s) (sections doc) = Some i
            \<longrightarrow> getSectionEndLine doc s True = Inr (deep_end doc i))"
proof (intro conjI impI)
  have "\<not> list_all (\<lambda>x. idS x \<noteq> idS s) (sections doc)"
    using assms(2,3) by (auto simp: list_all_iff)
  then obtain k where "findIndex (\<lambda>x. idS x = idS s) (sections doc) = Some k"
    using findIndex_None [of "\<lambda>x. idS x = idS s" "sections doc"] by auto
  then show "getSectionEndLine doc s False = Inr (lineEnd s)"
    by (simp add: getSectionEndLine_def)
next
  show "lineEnd s = (if Suc i < length (sections doc) then line (sections doc ! Suc i) - 1
                      else eof_trimmed (lines doc) (line s))"
    using section_lineEnd [of i t] assms by (simp add: lines_parseDocument)
next
  assume "findIndex (\<lambda>x. idS x = idS s) (sections doc) = Some i"
  moreover have "line s \<le> length (lines doc)"
    using section_line_le [of i t] assms by (simp add: lines_parseDocument)
  ultimately show "getSectionEndLine doc s True = Inr (deep_end doc i)"
    using assms(3) by (simp add: getSectionEndLine_def deep_end_def lastContent_eof split: option.splits)
qed

theorem getSectionEndLine_first_id_witness:
  "getSectionEndLine (parseDocument (join_nl [''# A'', ''x'', '''', ''## B'', ''y'', '''', ''# C'']))
     (sections (parseDocument (join_nl [''# A'', ''x'', '''', ''## B'', ''y'', '''', ''# C''])) ! 0) False
     = Inr 3
   \<and> getSectionEndLine (parseDocument (join_nl [''# A'', ''x'', '''', ''## B'', ''y'', '''', ''# C'']))
     (sections (parseDocument (join_nl [''# A'', ''x'', '''', ''## B'', ''y'', '''', ''# C''])) ! 0) True
     = Inr 6"
proof -
  let ?t = "join_nl [''# A'', ''x'', '''', ''## B'', ''y'', '''', ''# C'']"
  let ?doc = "parseDocument ?t"
  have len: "0 < length (sections ?doc)"
    by (simp add: parse_ev)
  have first: "findIndex (\<lambda>x. idS x = idS (sections ?doc ! 0)) (sections ?doc) = Some 0"
    by (simp add: parse_ev)
  have e1: "lineEnd (sections ?doc ! 0) = 3"
    by (simp add: parse_ev)
  have e2: "deep_end ?doc 0 = 6"
    by (simp add: parse_ev deep_end_def)
  from getSectionEndLine_first_id [OF refl len refl] first e1 e2 show ?thesis
    by simp
qed

text \<open>
  The claim as stated fails where two sections carry the same identifier: in \<open>twin_doc\<close>
  the second section is looked up by its identifier, the first section is found, and the
  deep end line of the second section comes out as line 1, above its own header at line
  2, instead of line 3.
\<close>

theorem getSectionEndLine_twin_counterexample:
  "length (sections (parseDocument twin_doc)) = 3
   \<and> getSectionEndLine (parseDocument twin_doc) (sections (parseDocument twin_doc) ! 1) True = Inr 1
   \<and> deep_end (parseDocument twin_doc) 1 = 3"
  by (simp add: twin_doc_def parse_ev hash_s47760 hash_s96294 getSectionEndLine_def deep_end_def
      eof_trimmed_def)

subsection \<open>Failures of the commands\<close>

lemma readFile_Some: "files path = Some c \<Longrightarrow> readFile files path = Inr c"
  by (simp add: readFile_def)

lemma findSection_Some: "findSection doc i = Some s \<Longrightarrow> s \<in> set (sections doc) \<and> idS s = i"
  by (auto simp: findSection_def find_Some_iff)

lemma findSection_end:
  "findSection doc i = Some s \<Longrightarrow> \<exists>e. getSectionEndLine doc s deep = Inr e"
proof -
  assume "findSection doc i = Some s"
  then have "s \<in> set (sections doc)" by (simp add: findSection_Some)
  then have "\<not> list_all (\<lambda>x. idS x \<noteq> idS s) (sections doc)"
    by (auto simp: list_all_iff)
  then obtain k where "findIndex (\<lambda>x. idS x = idS s) (sections doc) = Some k"
    using findIndex_None [of "\<lambda>x. idS x = idS s" "sections doc"] by auto
  then show ?thesis
    by (auto simp: getSectionEndLine_def split: option.splits)
qed

lemma cmdRead_errors:
  "\<not> isValidId i \<Longrightarrow> cmdRead files path i deep = Inl invalid_id"
  "isValidId i \<Longrightarrow> files path = Some c \<Longrightarrow> findSection (parseDocument c) i = None \<Longrightarrow>
     cmdRead files path i deep = Inl section_not_found"
  by (simp_all add: cmdRead_def readFile_def)

lemma cmdWrite_errors:
  "\<not> isValidId i \<Longrightarrow> cmdWrite magic files path i new deep = (Inl invalid_id, files)"
  "isValidId i \<Longrightarrow> files path = Some c \<Longrightarrow> findSection (parseDocument c) i = None \<Longrightarrow>
     cmdWrite magic files path i new deep = (Inl section_not_found, files)"
  by (simp_all add: cmdWrite_def readFile_def)

lemma cmdEmpty_errors:
  "\<not> isValidId i \<Longrightarrow> cmdEmpty files path i deep = (Inl invalid_id, files)"
  "isValidId i \<Longrightarrow> files path = Some c \<Longrightarrow> findSection (parseDocument c) i = None \<Longrightarrow>
     cmdEmpty files path i deep = (Inl section_not_found, files)"
  by (simp_all add: cmdEmpty_def readFile_def)

lemma cmdRemove_errors:
  "\<not> isValidId i \<Longrightarrow> cmdRemove files path i = (Inl invalid_id, files)"
  "isValidId i \<Longrightarrow> files path = Some c \<Longrightarrow> findSection (parseDocument c) i = None \<Longrightarrow>
     cmdRemove files path i = (Inl section_not_found, files)"
  by (simp_all add: cmdRemove_def readFile_def)

lemma cmdAppend_errors:
  "\<not> isValidId i \<Longrightarrow> files path = Some c \<Longrightarrow>
     cmdAppend magic files path (Some i) new deep before = (Inl invalid_id, files)"
  "isValidId i \<Longrightarrow> files path = Some c \<Longrightarrow> findSection (parseDocument c) i = None \<Longrightarrow>
     cmdAppend magic files path (Some i) new deep before = (Inl section_not_found, files)"
  by (simp_all add: cmdAppend_def readFile_def insert_point_def Let_def)

text \<open>
  C9.  For every operation that takes a target section id (read, write, append with an
  id, empty, remove) on a file that can be read: if the id does not have the shape of 8
  hexadecimal characters, the operation fails with \<open>invalid_id\<close>; if the id has the shape
  but no section of the parsed document carries it, the operation fails with
  \<open>section_not_found\<close>.
\<close>

theorem id_errors:
  assumes "files path = Some content"
  shows "(\<not> isValidId i \<longrightarrow>
            cmdRead files path i deep = Inl invalid_id
          \<and> fst (cmdWrite magic files path i new deep) = Inl invalid_id
          \<and> fst (cmdAppend magic files path (Some i) new deep before) = Inl invalid_id
          \<and> fst (cmdEmpty files path i deep) = Inl invalid_id
          \<and> fst (cmdRemove files path i) = Inl invalid_id)
       \<and> (isValidId i \<and> findSection (parseDocument content) i = None \<longrightarrow>
            cmdRead files path i deep = Inl section_not_found
          \<and> fst (cmdWrite magic files path i new deep) = Inl section_not_found
          \<and> fst (cmdAppend magic files path (Some i) new deep before) = Inl section_not_found
          \<and> fst (cmdEmpty files path i deep) = Inl section_not_found
          \<and> fst (cmdRemove files path i) = Inl section_not_found)"
  using assms
  by (simp add: cmdRead_errors cmdWrite_errors cmdAppend_errors cmdEmpty_errors cmdRemove_errors)

theorem id_errors_witness:
  "\<not> isValidId ''zz'' \<and> isValidId ''0123abcd''
   \<and> findSection (parseDocument ''plain'') ''0123abcd'' = None
   \<and> fst (cmdRemove [''f'' \<mapsto> ''plain''] ''f'' ''zz'') = Inl invalid_id
   \<and> fst (cmdRemove [''f'' \<mapsto> ''plain''] ''f'' ''0123abcd'') = Inl section_not_found"
proof -
  have a: "[''f'' \<mapsto> ''plain''] ''f'' = Some ''plain''" by simp
  have b: "\<not> isValidId ''zz''" by (simp add: isValidId_def)
  have c: "isValidId ''0123abcd''" by (simp add: isValidId_def isHexDigit_def)
  have d: "findSection (parseDocument ''plain'') ''0123abcd'' = None"
    by (simp add: findSection_def parse_ev)
  note e = id_errors [where files = "[''f'' \<mapsto> ''plain'']" and path = "''f''"
      and content = "''plain''"]
  from e [where i = "''zz''"] e [where i = "''0123abcd''"] a b c d show ?thesis
    by blast
qed


subsection \<open>Failed mutations leave the file alone\<close>

lemma cmdWrite_failure: "fst (cmdWrite magic files path i new deep) = Inl e \<Longrightarrow>
    snd (cmdWrite magic files path i new deep) = files"
  by (auto simp: cmdWrite_def Let_def split: if_splits sum.splits option.splits)

lemma cmdAppend_failure: "fst (cmdAppend magic files path io new deep before) = Inl e \<Longrightarrow>
    snd (cmdAppend magic files path io new deep before) = files"
  by (auto simp: cmdAppend_def Let_def split: if_splits sum.splits option.splits prod.splits)

lemma cmdEmpty_failure: "fst (cmdEmpty files path i deep) = Inl e \<Longrightarrow>
    snd (cmdEmpty files path i deep) = files"
  by (auto simp: cmdEmpty_def Let_def split: if_splits sum.splits option.splits)

lemma cmdRemove_failure: "fst (cmdRemove files path i) = Inl e \<Longrightarrow>
    snd (cmdRemove files path i) = files"
  by (auto simp: cmdRemove_def Let_def split: if_splits sum.splits option.splits)

text \<open>
  C10.  When a mutation (write, append with an id, empty, remove) fails with
  \<open>invalid_id\<close> or \<open>section_not_found\<close>, the file system, and so the content of the target
  file, is left as it was: the error is raised before \<^verbatim>\<open>writeFile\<close>.
\<close>

theorem failed_mutation_keeps_file:
  assumes "r = cmdWrite magic files path i new deep
         \<or> r = cmdAppend magic files path (Some i) new deep before
         \<or> r = cmdEmpty files path i deep
         \<or> r = cmdRemove files path i"
    and "fst r = Inl invalid_id \<or> fst r = Inl section_not_found"
  shows "snd r = files"
  using assms cmdWrite_failure cmdAppend_failure cmdEmpty_failure cmdRemove_failure
  by metis

theorem failed_mutation_keeps_file_witness:
  "fst (cmdEmpty [''f'' \<mapsto> ''# A''] ''f'' ''zz'' False) = Inl invalid_id
   \<and> snd (cmdEmpty [''f'' \<mapsto> ''# A''] ''f'' ''zz'' False) ''f'' = Some ''# A''"
proof -
  have a: "fst (cmdEmpty [''f'' \<mapsto> ''# A''] ''f'' ''zz'' False) = Inl invalid_id"
    by (simp add: cmdEmpty_def isValidId_def)
  then have "snd (cmdEmpty [''f'' \<mapsto> ''# A''] ''f'' ''zz'' False) = [''f'' \<mapsto> ''# A'']"
    using failed_mutation_keeps_file
      [of "cmdEmpty [''f'' \<mapsto> ''# A''] ''f'' ''zz'' False" _ "[''f'' \<mapsto> ''# A'']" "''f''" "''zz''" _ False]
    by blast
  with a show ?thesis by simp
qed

subsection \<open>Identifiers have the shape of identifiers\<close>

lemma length8: "length (s :: 'a list) = 8 \<Longrightarrow> \<exists>a b c d e f g h. s = [a, b, c, d, e, f, g, h]"
  by (auto simp: length_Suc_conv numeral_eq_Suc)

lemma length_rounds: "length s = 8 \<Longrightarrow> length (rounds s kws) = 8"
proof (induction kws arbitrary: s)
  case Nil
  then show ?case by (auto dest: length8)
next
  case (Cons kw kws)
  from Cons.prems obtain a b c d e f g h where s: "s = [a, b, c, d, e, f, g, h]"
    by (auto dest: length8)
  obtain k w where kw: "kw = (k, w)" by (cases kw)
  show ?case using Cons.IH [of "step [a, b, c, d, e, f, g, h] (T1 e f g h k w) (T2 a b c)"]
    by (simp add: s kw)
qed

lemma words8_compress: "length hs = 8 \<Longrightarrow> words8 (compress hs blk)"
  by (auto simp: words8_def compress_def length_rounds list_all_iff add32_def
      dest!: set_zip_leftD set_zip_rightD in_set_zipE)

lemma words8_blocks: "words8 hs \<Longrightarrow> words8 (blocks hs ws)"
proof (induction hs ws rule: blocks.induct)
  case (1 hs w0 w1 w2 w3 w4 w5 w6 w7 w8 w9 w10 w11 w12 w13 w14 w15 r)
  from "1.prems" have "length hs = 8" by (simp add: words8_def)
  then have "words8 (compress hs [w0, w1, w2, w3, w4, w5, w6, w7, w8, w9, w10, w11, w12, w13, w14, w15])"
    by (rule words8_compress)
  then have "words8 (blocks (compress hs [w0, w1, w2, w3, w4, w5, w6, w7, w8, w9, w10, w11, w12, w13, w14, w15]) r)"
    by (rule "1.IH")
  then show ?case by simp
qed simp_all

lemma words8_H256: "words8 H256"
  by (simp add: words8_def H256_def)

lemma isHexDigit_hexdigit: "n < 16 \<Longrightarrow> isHexDigit (hexdigit n)"
proof -
  assume "n < 16"
  then have "''0123456789abcdef'' ! n \<in> set ''0123456789abcdef''"
    by (intro nth_mem) simp
  then show ?thesis
    unfolding isHexDigit_def hexdigit_def by auto
qed

lemma hex_word_bytes:
  assumes "w < 4294967296"
  shows "length (hex (word_bytes w)) = 8" "list_all isHexDigit (hex (word_bytes w))"
proof -
  show "length (hex (word_bytes w)) = 8" by (simp add: hex_def word_bytes_def)
  from assms have "w div 16777216 < 256" by simp
  then have "w div 16777216 div 16 < 16" by simp
  then show "list_all isHexDigit (hex (word_bytes w))"
    by (simp add: hex_def word_bytes_def isHexDigit_hexdigit)
qed

lemma isValidId_sectionHash: "isValidId (sectionHash lv ttl k)"
proof -
  define ws where "ws = blocks H256 (be32 (pad (utf8 (hash_input lv ttl k))))"
  have "words8 ws" unfolding ws_def by (intro words8_blocks words8_H256)
  then obtain a b c d e f g h where ws: "ws = [a, b, c, d, e, f, g, h]" and a: "a < 4294967296"
    by (auto simp: words8_def dest!: length8)
  have "sectionHash lv ttl k = take 8 (hex (word_bytes a) @ hex (concat (map word_bytes [b, c, d, e, f, g, h])))"
    by (simp add: sectionHash_def sha256_def ws_def [symmetric] ws hex_def)
  also have "\<dots> = hex (word_bytes a)"
    using hex_word_bytes(1) [OF a] by simp
  finally show ?thesis
    using hex_word_bytes [OF a] by (simp add: isValidId_def)
qed

lemma sectionHash_not_dash: "sectionHash lv ttl k \<noteq> ''-''"
  using isValidId_sectionHash [of lv ttl k] by (auto simp: isValidId_def)

subsection \<open>Positions of the sections\<close>

lemma sections_sorted: "sorted_wrt (\<lambda>a b. line a < line b) (sections (parseDocument t))"
proof -
  define raw where "raw = scan (length (split_nl t))
       (drop (frontmatterEndLine (parseDocument t)) (split_nl t))
       (frontmatterEndLine (parseDocument t)) False Map.empty"
  have ss: "sections (parseDocument t) = fix_ends (split_nl t) raw"
    by (simp add: raw_def parse_sections)
  have "sorted_wrt (\<lambda>a b. line a < line b) raw"
    by (simp add: raw_def scan_sorted)
  then show ?thesis
    unfolding ss sorted_wrt_iff_nth_less by (simp add: fix_ends_nth_fields)
qed

lemma sections_line_less:
  "i < j \<Longrightarrow> j < length (sections (parseDocument t)) \<Longrightarrow>
   line (sections (parseDocument t) ! i) < line (sections (parseDocument t) ! j)"
  using sections_sorted [of t] by (simp add: sorted_wrt_iff_nth_less)

lemma find_findIndex:
  "find p xs = Some x \<Longrightarrow> \<exists>k. findIndex p xs = Some k \<and> k < length xs \<and> xs ! k = x"
  by (induction xs) (auto split: if_splits)

lemma findIndex_find: "findIndex p xs = Some k \<Longrightarrow> find p xs = Some (xs ! k)"
  by (induction xs arbitrary: k) (auto split: if_splits)

lemma find_drop_nth:
  "find p (drop n xs) = Some x \<Longrightarrow> \<exists>j. n \<le> j \<and> j < length xs \<and> xs ! j = x \<and> p x"
proof -
  assume "find p (drop n xs) = Some x"
  then obtain k where "k < length (drop n xs)" "drop n xs ! k = x" "p x"
    by (auto simp: find_Some_iff)
  then show ?thesis
    by (intro exI [of _ "n + k"]) auto
qed

lemma eof_trimmed_bounds: "lo \<le> length ls \<Longrightarrow> lo \<le> eof_trimmed ls lo \<and> eof_trimmed ls lo \<le> length ls"
  using length_dropWhile_le [of "\<lambda>l. trim l = []" "rev ls"] by (simp add: eof_trimmed_def)

lemma deep_end_bounds:
  assumes "k < length (sections (parseDocument t))"
  shows "line (sections (parseDocument t) ! k) \<le> deep_end (parseDocument t) k"
    and "deep_end (parseDocument t) k \<le> length (split_nl t)"
proof -
  let ?ss = "sections (parseDocument t)"
  have le: "line (?ss ! k) \<le> length (split_nl t)"
    using assms by (rule section_line_le)
  show "line (?ss ! k) \<le> deep_end (parseDocument t) k"
  proof (cases "find (\<lambda>x. level x \<le> level (?ss ! k)) (drop (Suc k) ?ss)")
    case None
    with eof_trimmed_bounds [OF le] show ?thesis
      by (simp add: deep_end_def lines_parseDocument)
  next
    case (Some x)
    from find_drop_nth [OF this] obtain j where "Suc k \<le> j" "j < length ?ss" "?ss ! j = x"
      by blast
    with sections_line_less [of k j t] Some show ?thesis
      by (simp add: deep_end_def)
  qed
  show "deep_end (parseDocument t) k \<le> length (split_nl t)"
  proof (cases "find (\<lambda>x. level x \<le> level (?ss ! k)) (drop (Suc k) ?ss)")
    case None
    with eof_trimmed_bounds [OF le] show ?thesis
      by (simp add: deep_end_def lines_parseDocument)
  next
    case (Some x)
    from find_drop_nth [OF this] obtain j where "Suc k \<le> j" "j < length ?ss" "?ss ! j = x"
      by blast
    with section_line_le [of j t] Some show ?thesis
      by (simp add: deep_end_def)
  qed
qed

lemma lineEnd_bounds:
  assumes "k < length (sections (parseDocument t))"
  shows "line (sections (parseDocument t) ! k) \<le> lineEnd (sections (parseDocument t) ! k)"
    and "lineEnd (sections (parseDocument t) ! k) \<le> length (split_nl t)"
proof -
  let ?ss = "sections (parseDocument t)"
  have le: "line (?ss ! k) \<le> length (split_nl t)"
    using assms by (rule section_line_le)
  show "line (?ss ! k) \<le> lineEnd (?ss ! k)"
    using section_lineEnd [OF assms] eof_trimmed_bounds [OF le] sections_line_less [of k "Suc k" t]
    by (auto split: if_splits)
  show "lineEnd (?ss ! k) \<le> length (split_nl t)"
    using section_lineEnd [OF assms] eof_trimmed_bounds [OF le] section_line_le [of "Suc k" t]
    by (auto split: if_splits)
qed

text \<open>
  The end line that the commands compute for the section an identifier designates: the
  section at the first position \<open>k\<close> that carries the identifier.
\<close>

lemma designated_end:
  assumes "findIndex (\<lambda>x. idS x = i) (sections (parseDocument t)) = Some k"
  shows "findSection (parseDocument t) i = Some (sections (parseDocument t) ! k)"
    and "getSectionEndLine (parseDocument t) (sections (parseDocument t) ! k) deep =
         Inr (if deep then deep_end (parseDocument t) k else lineEnd (sections (parseDocument t) ! k))"
    and "line (sections (parseDocument t) ! k) \<le>
         (if deep then deep_end (parseDocument t) k else lineEnd (sections (parseDocument t) ! k))"
    and "(if deep then deep_end (parseDocument t) k else lineEnd (sections (parseDocument t) ! k))
         \<le> length (split_nl t)"
    and "1 \<le> line (sections (parseDocument t) ! k)"
    and "line (sections (parseDocument t) ! k) \<le> length (split_nl t)"
proof -
  let ?doc = "parseDocument t"
  let ?s = "sections ?doc ! k"
  from findIndex_Some_less [OF assms] have k: "k < length (sections ?doc)" and id: "idS ?s = i"
    by auto
  show "findSection ?doc i = Some ?s"
    using findIndex_find [OF assms] by (simp add: findSection_def)
  from assms id have first: "findIndex (\<lambda>x. idS x = idS ?s) (sections ?doc) = Some k"
    by simp
  have le: "line ?s \<le> length (split_nl t)"
    using k by (rule section_line_le)
  show "getSectionEndLine ?doc ?s deep = Inr (if deep then deep_end ?doc k else lineEnd ?s)"
    using first le
    by (simp add: getSectionEndLine_def deep_end_def lastContent_eof lines_parseDocument
        split: option.splits)
  show "line ?s \<le> (if deep then deep_end ?doc k else lineEnd ?s)"
    using deep_end_bounds(1) [OF k] lineEnd_bounds(1) [OF k] by simp
  show "(if deep then deep_end ?doc k else lineEnd ?s) \<le> length (split_nl t)"
    using deep_end_bounds(2) [OF k] lineEnd_bounds(2) [OF k] by simp
  show "line ?s \<le> length (split_nl t)" by (rule le)
  define raw where "raw = scan (length (split_nl t))
       (drop (frontmatterEndLine ?doc) (split_nl t)) (frontmatterEndLine ?doc) False Map.empty"
  have ss: "sections ?doc = fix_ends (split_nl t) raw"
    by (simp add: raw_def parse_sections)
  with k have "raw ! k \<in> set raw" by simp
  then have "0 < line (raw ! k)"
    unfolding raw_def using scan_line_bounds by fastforce
  with k ss show "1 \<le> line ?s"
    by (simp add: fix_ends_nth_fields)
qed

subsection \<open>Header lines are not blank\<close>

lemma scan_header:
  "s \<in> set (scan n ls i b occ) \<Longrightarrow>
   \<exists>j<length ls. line s = Suc (i + j) \<and> header_match (ls ! j) \<noteq> None"
proof (induction ls arbitrary: i b occ)
  case Nil
  then show ?case by simp
next
  case (Cons l ls)
  show ?case
  proof (cases "\<exists>b' occ'. s \<in> set (scan n ls (Suc i) b' occ')")
    case True
    then obtain b' occ' where "s \<in> set (scan n ls (Suc i) b' occ')" by blast
    from Cons.IH [OF this] obtain j where "j < length ls" "line s = Suc (Suc i + j)"
      "header_match (ls ! j) \<noteq> None" by blast
    then show ?thesis
      by (intro exI [of _ "Suc j"]) auto
  next
    case False
    with Cons.prems have "line s = Suc i \<and> header_match l \<noteq> None"
      by (auto simp: Let_def split: if_splits option.splits prod.splits)
    then show ?thesis
      by (intro exI [of _ 0]) auto
  qed
qed

lemma trim_eq_Nil: "trim l = [] \<longleftrightarrow> list_all isSpace l"
proof
  assume "trim l = []"
  then have all: "\<forall>c \<in> set (dropWhile isSpace l). isSpace c"
    by (simp add: trim_def dropWhile_eq_Nil_conv)
  have "dropWhile isSpace l = []"
  proof (rule ccontr)
    assume ne: "dropWhile isSpace l \<noteq> []"
    then have "\<not> isSpace (hd (dropWhile isSpace l))" by (rule hd_dropWhile)
    moreover from ne have "hd (dropWhile isSpace l) \<in> set (dropWhile isSpace l)" by simp
    ultimately show False using all by blast
  qed
  then show "list_all isSpace l"
    by (simp add: dropWhile_eq_Nil_conv list_all_iff)
next
  assume "list_all isSpace l"
  then have d: "dropWhile isSpace l = []"
    by (simp add: list_all_iff dropWhile_eq_Nil_conv)
  show "trim l = []"
    unfolding trim_def d by simp
qed

lemma header_match_not_blank: "header_match l \<noteq> None \<Longrightarrow> trim l \<noteq> []"
proof -
  assume "header_match l \<noteq> None"
  then have "1 \<le> length (takeWhile (\<lambda>c. c = CHR ''#'') l)"
    by (auto simp: header_match_def Let_def split: if_splits)
  then obtain c cs where "takeWhile (\<lambda>c. c = CHR ''#'') l = c # cs"
    by (cases "takeWhile (\<lambda>c. c = CHR ''#'') l") auto
  then have "CHR ''#'' \<in> set l"
    by (metis list.set_intros(1) set_takeWhileD)
  moreover have "\<not> isSpace CHR ''#''" by (simp add: isSpace_def)
  ultimately show ?thesis
    by (auto simp: trim_eq_Nil list_all_iff)
qed

lemma length_dropWhile_append: "length (dropWhile P ys) \<le> length (dropWhile P (xs @ ys))"
proof (induction xs)
  case Nil
  show ?case by simp
next
  case (Cons x xs)
  have "length (dropWhile P ys) \<le> length ys" by (rule length_dropWhile_le)
  with Cons show ?case by simp
qed

lemma nonblank_below_trimmed:
  assumes "m < length ls" and "trim (ls ! m) \<noteq> []"
  shows "Suc m \<le> length (dropWhile (\<lambda>l. trim l = []) (rev ls))"
proof -
  have "ls = take m ls @ ls ! m # drop (Suc m) ls"
    using assms(1) by (simp add: id_take_nth_drop)
  then have "rev ls = rev (drop (Suc m) ls) @ (ls ! m # rev (take m ls))"
    by (metis rev.simps(2) rev_append append.assoc append_Cons append_Nil)
  moreover have "length (dropWhile (\<lambda>l. trim l = []) (ls ! m # rev (take m ls))) = Suc m"
    using assms by simp
  ultimately show ?thesis
    using length_dropWhile_append [of "\<lambda>l. trim l = []" "ls ! m # rev (take m ls)"
        "rev (drop (Suc m) ls)"]
    by simp
qed

lemma section_below_trimmed:
  assumes "j < length (sections (parseDocument t))"
  shows "line (sections (parseDocument t) ! j) \<le> eof_trimmed (split_nl t) lo"
proof -
  define start where "start = frontmatterEndLine (parseDocument t)"
  define raw where "raw = scan (length (split_nl t)) (drop start (split_nl t)) start False Map.empty"
  have ss: "sections (parseDocument t) = fix_ends (split_nl t) raw"
    by (simp add: raw_def start_def parse_sections)
  with assms have j: "j < length raw" by simp
  then have "raw ! j \<in> set raw" by simp
  from scan_header [OF this [unfolded raw_def]] obtain m where
    m: "m < length (drop start (split_nl t))" "line (raw ! j) = Suc (start + m)"
       "header_match (drop start (split_nl t) ! m) \<noteq> None"
    unfolding raw_def by blast
  from m(1) have lt: "start + m < length (split_nl t)" by simp
  from m(1,3) have "header_match (split_nl t ! (start + m)) \<noteq> None" by simp
  then have "trim (split_nl t ! (start + m)) \<noteq> []" by (rule header_match_not_blank)
  from nonblank_below_trimmed [OF lt this] m(2) j show ?thesis
    by (simp add: ss fix_ends_nth_fields eof_trimmed_def)
qed

lemma descendants_in_deep_range:
  assumes k: "k < length (sections (parseDocument t))"
    and u: "u \<in> set (takeWhile (\<lambda>u. level (sections (parseDocument t) ! k) < level u)
                      (drop (Suc k) (sections (parseDocument t))))"
  shows "line (sections (parseDocument t) ! k) < line u \<and> line u \<le> deep_end (parseDocument t) k"
proof -
  let ?ss = "sections (parseDocument t)"
  let ?s = "?ss ! k"
  let ?D = "drop (Suc k) ?ss"
  let ?P = "\<lambda>u. level ?s < level u"
  from u obtain a where a: "a < length (takeWhile ?P ?D)" "takeWhile ?P ?D ! a = u"
    by (auto simp: in_set_conv_nth)
  have len: "length (takeWhile ?P ?D) \<le> length ?D" by (rule length_takeWhile_le)
  with a have aD: "a < length ?D" by simp
  from a have ua: "u = ?D ! a" by (simp add: takeWhile_nth)
  with aD have us: "u = ?ss ! (Suc k + a)" "Suc k + a < length ?ss" by auto
  have lo: "line ?s < line u"
    using sections_line_less [of k "Suc k + a" t] us by simp
  have hi: "line u \<le> deep_end (parseDocument t) k"
  proof (cases "find (\<lambda>x. level x \<le> level ?s) ?D")
    case None
    with section_below_trimmed [OF us(2), of "line ?s"] us(1) show ?thesis
      by (simp add: deep_end_def lines_parseDocument)
  next
    case (Some x)
    then obtain b where b: "b < length ?D" "level (?D ! b) \<le> level ?s" "x = ?D ! b"
      by (auto simp: find_Some_iff)
    have "a < b"
    proof (rule ccontr)
      assume "\<not> a < b"
      with a(1) have "b < length (takeWhile ?P ?D)" by simp
      then have "?P (takeWhile ?P ?D ! b)"
        using nth_mem set_takeWhileD by metis
      moreover have "takeWhile ?P ?D ! b = ?D ! b"
        using \<open>b < length (takeWhile ?P ?D)\<close> by (rule takeWhile_nth)
      ultimately show False using b(2) by simp
    qed
    with b(1) have "Suc k + a < Suc k + b" "Suc k + b < length ?ss" by auto
    from sections_line_less [OF this] us(1) b(1,3) have "line u < line x" by simp
    with Some show ?thesis by (simp add: deep_end_def)
  qed
  from lo hi show ?thesis ..
qed

subsection \<open>Remove\<close>

lemma remove_example:
  "snd (cmdRemove [''f'' \<mapsto> join_nl [''# A'', ''x'', '''', ''## B'', ''y'', '''', ''# C'']] ''f''
          (sectionHash 1 ''A'' 0)) ''f'' = Some ''# C''"
  by (simp add: cmdRemove_def isValidId_sectionHash readFile_def writeFile_def findSection_def
      getSectionEndLine_def serializeDocument_def parse_ev)

text \<open>
  C6.  A remove on the section that an identifier designates deletes the header line and
  the whole deep range of the section, up to the line before the next section whose level
  is at most that of the target, or the trimmed end of the file; the command has no deep
  flag.  Every descendant (the sections that follow the target up to that next section)
  has its header line in the deleted range, so no orphaned child header stays behind, and
  \<open>linesRemoved\<close> is the deep content line count plus one for the header.  In particular,
  removing \<^verbatim>\<open># A\<close> from \<^verbatim>\<open># A\<close>, \<^verbatim>\<open>x\<close>, blank, \<^verbatim>\<open>## B\<close>, \<^verbatim>\<open>y\<close>, blank, \<^verbatim>\<open># C\<close> leaves only
  \<^verbatim>\<open># C\<close>.
\<close>

theorem remove_deletes_deep_range:
  assumes "files path = Some content" and "doc = parseDocument content" and "isValidId i"
    and "findIndex (\<lambda>x. idS x = i) (sections doc) = Some k" and "s = sections doc ! k"
    and "e = deep_end doc k"
  shows "cmdRemove files path i =
           (Inr \<lparr>action = removed, idM = idS s, lineStart = line s, lineEndM = None,
                 linesAdded = 0, linesRemoved = int e - int (line s) + 1\<rparr>,
            files(path \<mapsto> join_nl (take (line s - 1) (lines doc) @ drop e (lines doc))))
       \<and> 1 \<le> line s \<and> line s \<le> e \<and> e \<le> length (lines doc)
       \<and> list_all (\<lambda>u. line s < line u \<and> line u \<le> e)
            (takeWhile (\<lambda>u. level s < level u) (drop (Suc k) (sections doc)))
       \<and> snd (cmdRemove [''f'' \<mapsto> join_nl [''# A'', ''x'', '''', ''## B'', ''y'', '''', ''# C'']] ''f''
                (sectionHash 1 ''A'' 0)) ''f'' = Some ''# C''"
proof -
  note ix = assms(4) [unfolded assms(2)]
  note d = designated_end(1) [OF ix] designated_end(2) [OF ix, of True]
    designated_end(3) [OF ix, of True] designated_end(4) [OF ix, of True]
    designated_end(5) [OF ix]
  from findIndex_Some_less [OF assms(4)] have k: "k < length (sections (parseDocument content))"
    by (simp add: assms(2))
  have cmd: "cmdRemove files path i =
           (Inr \<lparr>action = removed, idM = idS s, lineStart = line s, lineEndM = None,
                 linesAdded = 0, linesRemoved = int e - int (line s) + 1\<rparr>,
            files(path \<mapsto> join_nl (take (line s - 1) (lines doc) @ drop e (lines doc))))"
    using assms(1,3) d(1,2)
    by (simp add: cmdRemove_def readFile_def writeFile_def serializeDocument_def Let_def
        assms(2,5,6))
  have bounds: "1 \<le> line s \<and> line s \<le> e \<and> e \<le> length (lines doc)"
    using d(3,4,5) by (simp add: assms(2,5,6) lines_parseDocument)
  have desc: "list_all (\<lambda>u. line s < line u \<and> line u \<le> e)
            (takeWhile (\<lambda>u. level s < level u) (drop (Suc k) (sections doc)))"
    unfolding list_all_iff assms(2,5,6) using descendants_in_deep_range [OF k] by blast
  from cmd bounds desc remove_example show ?thesis by blast
qed

theorem remove_deletes_deep_range_witness:
  "fst (cmdRemove [''f'' \<mapsto> join_nl [''# A'', ''x'', '''', ''## B'', ''y'', '''', ''# C'']] ''f''
          (sectionHash 1 ''A'' 0))
     = Inr \<lparr>action = removed, idM = sectionHash 1 ''A'' 0, lineStart = 1, lineEndM = None,
            linesAdded = 0, linesRemoved = 6\<rparr>
   \<and> map title (takeWhile (\<lambda>u. 1 < level u) (drop 1 (sections (parseDocument
        (join_nl [''# A'', ''x'', '''', ''## B'', ''y'', '''', ''# C''])))))
     = [''B'']"
proof -
  let ?t = "join_nl [''# A'', ''x'', '''', ''## B'', ''y'', '''', ''# C'']"
  let ?doc = "parseDocument ?t"
  have a: "[''f'' \<mapsto> ?t] ''f'' = Some ?t" by simp
  have b: "isValidId (sectionHash 1 ''A'' 0)" by (rule isValidId_sectionHash)
  have c: "findIndex (\<lambda>x. idS x = sectionHash 1 ''A'' 0) (sections ?doc) = Some 0"
    by (simp add: parse_ev)
  have e: "deep_end ?doc 0 = 6"
    by (simp add: deep_end_def parse_ev)
  have s: "idS (sections ?doc ! 0) = sectionHash 1 ''A'' 0" "line (sections ?doc ! 0) = 1"
    by (simp_all add: parse_ev)
  have t: "map title (takeWhile (\<lambda>u. 1 < level u) (drop 1 (sections ?doc))) = [''B'']"
    by (simp add: parse_ev)
  from remove_deletes_deep_range [where files = "[''f'' \<mapsto> ?t]" and path = "''f''"
      and content = ?t and doc = ?doc and i = "sectionHash 1 ''A'' 0" and k = 0
      and s = "sections ?doc ! 0" and e = "deep_end ?doc 0"] a b c e s t
  show ?thesis
    by simp
qed

subsection \<open>Write\<close>

lemma write_lines_cases:
  "write_lines c =
     (if c = [] then [] else if trim (hd (split_nl c)) = [] then split_nl c else [] # split_nl c)"
proof -
  have "split_nl c \<noteq> []" by (cases c) (auto split: list.splits)
  then show ?thesis by (simp add: write_lines_def Let_def)
qed

text \<open>
  C5, amended.  A write on the section that an identifier designates keeps the header
  line and every line outside the replaced range (from the line after the header through
  the resolved end line); in place of that range it puts no line when the new content is
  empty, and otherwise the lines of the new content (split on newlines), after a single
  blank line when the first of them is non-blank.  The result reports \<open>lineStart\<close> = the
  header line, \<open>linesAdded\<close> = the number of lines put in, and \<open>linesRemoved\<close> = the old
  content line count.
\<close>

theorem write_replaces_content:
  assumes "files path = Some content" and "doc = parseDocument content" and "isValidId i"
    and "findIndex (\<lambda>x. idS x = i) (sections doc) = Some k" and "s = sections doc ! k"
    and "e = (if deep then deep_end doc k else lineEnd s)"
    and "c = magic new (getFrontmatterContent doc)"
    and "newLines = (if c = [] then [] else if trim (hd (split_nl c)) = [] then split_nl c
                     else [] # split_nl c)"
    and "out = take (line s) (lines doc) @ newLines @ drop e (lines doc)"
  shows "cmdWrite magic files path i new deep =
           (Inr \<lparr>action = updated, idM = idS s, lineStart = line s,
                 lineEndM = Some (line s + length newLines),
                 linesAdded = length newLines, linesRemoved = int e - int (line s)\<rparr>,
            files(path \<mapsto> join_nl out))
       \<and> getSectionEndLine doc s deep = Inr e
       \<and> 1 \<le> line s \<and> line s \<le> e \<and> e \<le> length (lines doc)
       \<and> take (line s) out = take (line s) (lines doc)
       \<and> out ! (line s - 1) = lines doc ! (line s - 1)
       \<and> take (length newLines) (drop (line s) out) = newLines
       \<and> drop (line s + length newLines) out = drop e (lines doc)"
proof -
  note ix = assms(4) [unfolded assms(2)]
  note d = designated_end(1) [OF ix] designated_end(2) [OF ix, of deep]
    designated_end(3) [OF ix, of deep] designated_end(4) [OF ix, of deep]
    designated_end(5) [OF ix] designated_end(6) [OF ix]
  have nl: "newLines = write_lines c"
    by (simp add: assms(8) write_lines_cases)
  have cmd: "cmdWrite magic files path i new deep =
           (Inr \<lparr>action = updated, idM = idS s, lineStart = line s,
                 lineEndM = Some (line s + length newLines),
                 linesAdded = length newLines, linesRemoved = int e - int (line s)\<rparr>,
            files(path \<mapsto> join_nl out))"
    using assms(1,3) d(1,2)
    by (simp add: cmdWrite_def readFile_def writeFile_def serializeDocument_def Let_def
        assms(2,5,6,7,9) nl)
  have en: "getSectionEndLine doc s deep = Inr e"
    using d(2) by (simp add: assms(2,5,6))
  have bounds: "1 \<le> line s" "line s \<le> e" "e \<le> length (lines doc)" "line s \<le> length (lines doc)"
    using d(3,4,5,6) by (auto simp: assms(2,5,6) lines_parseDocument split: if_splits)
  have len: "length (take (line s) (lines doc)) = line s"
    using bounds(4) by simp
  have t1: "take (line s) out = take (line s) (lines doc)"
    using len by (simp add: assms(9))
  have t2: "out ! (line s - 1) = lines doc ! (line s - 1)"
  proof -
    from bounds(1) have "line s - 1 < line s" by simp
    then have "out ! (line s - 1) = take (line s) out ! (line s - 1)" by simp
    also have "\<dots> = lines doc ! (line s - 1)"
      using \<open>line s - 1 < line s\<close> by (simp add: t1)
    finally show ?thesis .
  qed
  have t3: "take (length newLines) (drop (line s) out) = newLines"
    using len by (simp add: assms(9))
  have t4: "drop (line s + length newLines) out = drop e (lines doc)"
    using len by (simp add: assms(9))
  from cmd en bounds(1,2,3) t1 t2 t3 t4 show ?thesis by blast
qed

theorem write_replaces_content_witness:
  "snd (cmdWrite (\<lambda>c y. c) [''f'' \<mapsto> join_nl [''# A'', ''old'', '''', ''# B'', ''keep'']] ''f''
          (sectionHash 1 ''A'' 0) ''new'' False) ''f''
     = Some (join_nl [''# A'', '''', ''new'', ''# B'', ''keep''])
   \<and> map_sum id linesAdded
       (fst (cmdWrite (\<lambda>c y. c) [''f'' \<mapsto> join_nl [''# A'', ''old'', '''', ''# B'', ''keep'']] ''f''
          (sectionHash 1 ''A'' 0) ''new'' False)) = Inr 2"
proof -
  let ?t = "join_nl [''# A'', ''old'', '''', ''# B'', ''keep'']"
  let ?doc = "parseDocument ?t"
  let ?out = "[''# A'', '''', ''new'', ''# B'', ''keep'']"
  have h1: "[''f'' \<mapsto> ?t] ''f'' = Some ?t" by simp
  have h3: "isValidId (sectionHash 1 ''A'' 0)" by (rule isValidId_sectionHash)
  have h4: "findIndex (\<lambda>x. idS x = sectionHash 1 ''A'' 0) (sections ?doc) = Some 0"
    by (simp add: parse_ev)
  have h6: "3 = (if False then deep_end ?doc 0 else lineEnd (sections ?doc ! 0))"
    by (simp add: parse_ev)
  have h7: "''new'' = (\<lambda>c y. c) ''new'' (getFrontmatterContent ?doc)" by simp
  have h8: "['''', ''new''] = (if ''new'' = [] then [] else if trim (hd (split_nl ''new'')) = []
      then split_nl ''new'' else [] # split_nl ''new'')"
    by (simp add: parse_ev)
  have h9: "?out = take (line (sections ?doc ! 0)) (lines ?doc) @ ['''', ''new''] @ drop 3 (lines ?doc)"
    by (simp add: parse_ev)
  note w = write_replaces_content [where files = "[''f'' \<mapsto> ?t]" and path = "''f''"
      and content = ?t and doc = ?doc and i = "sectionHash 1 ''A'' 0" and k = 0
      and s = "sections ?doc ! 0" and deep = False and magic = "\<lambda>c y. c" and new = "''new''"
      and c = "''new''" and e = 3 and newLines = "['''', ''new'']" and out = ?out,
      OF h1 refl h3 h4 refl h6 h7 h8 h9]
  from w have "cmdWrite (\<lambda>c y. c) [''f'' \<mapsto> ?t] ''f'' (sectionHash 1 ''A'' 0) ''new'' False =
      (Inr \<lparr>action = updated, idM = idS (sections ?doc ! 0), lineStart = line (sections ?doc ! 0),
            lineEndM = Some (line (sections ?doc ! 0) + length ['''', ''new'']),
            linesAdded = length ['''', ''new''],
            linesRemoved = int 3 - int (line (sections ?doc ! 0))\<rparr>,
       [''f'' \<mapsto> ?t](''f'' \<mapsto> join_nl ?out))"
    by (rule conjunct1)
  then show ?thesis by simp
qed

text \<open>
  The claim as stated fails for the empty new content: split on newlines it is one empty
  line, but the command puts no line under the header.  Writing the empty text to the
  section \<^verbatim>\<open># A\<close> of the two lines \<^verbatim>\<open># A\<close>, \<^verbatim>\<open>old\<close> leaves the single line \<^verbatim>\<open># A\<close> and reports
  no line added.
\<close>

theorem write_empty_content_counterexample:
  "snd (cmdWrite (\<lambda>c y. c) [''f'' \<mapsto> join_nl [''# A'', ''old'']] ''f''
          (sectionHash 1 ''A'' 0) '''' False) ''f''
     = Some (join_nl [''# A''])
   \<and> map_sum id linesAdded
       (fst (cmdWrite (\<lambda>c y. c) [''f'' \<mapsto> join_nl [''# A'', ''old'']] ''f''
          (sectionHash 1 ''A'' 0) '''' False)) = Inr 0
   \<and> take 1 [''# A'', ''old''] @ claimed_write_lines '''' @ drop 2 [''# A'', ''old'']
     = [''# A'', '''']
   \<and> length (claimed_write_lines '''') = 1
   \<and> join_nl [''# A'', ''''] \<noteq> join_nl [''# A'']"
  by (simp add: cmdWrite_def isValidId_sectionHash readFile_def writeFile_def findSection_def
      getSectionEndLine_def serializeDocument_def write_lines_def claimed_write_lines_def
      getFrontmatterContent_def parse_ev)

subsection \<open>Append\<close>

lemmas cmd_ev = cmdAppend_def insert_point_def readFile_def writeFile_def findSection_def
  getSectionEndLine_def serializeDocument_def getFrontmatterContent_def startsWithHeader_def

text \<open>
  C4.  The file holds the two lines \<^verbatim>\<open># A\<close>, \<^verbatim>\<open>x\<close>; the content \<^verbatim>\<open>## New\<close>, \<^verbatim>\<open>body\<close> is
  appended without an id.  At the end of the file a separating blank line is put before
  the content: the action is \<open>created\<close>, the new section is at line 4 of the new text, and
  the command looks for it at line 3, so the id of the result is the placeholder
  \<^verbatim>\<open>-\<close> and not the id of the new section.  Inserted at the start of the file (no blank
  line), the same content gives the id of the new section.
\<close>

theorem append_after_misses_new_id:
  "cmdAppend (\<lambda>c y. c) [''f'' \<mapsto> join_nl [''# A'', ''x'']] ''f'' None
       (join_nl [''## New'', ''body'']) False False
     = (Inr \<lparr>action = created, idM = ''-'', lineStart = 3, lineEndM = Some 5,
              linesAdded = 3, linesRemoved = 0\<rparr>,
        [''f'' \<mapsto> join_nl [''# A'', ''x'', '''', ''## New'', ''body'']])
   \<and> map (\<lambda>s. (idS s, title s, line s))
        (sections (parseDocument (join_nl [''# A'', ''x'', '''', ''## New'', ''body''])))
     = [(sectionHash 1 ''A'' 0, ''A'', 1), (sectionHash 2 ''New'' 0, ''New'', 4)]
   \<and> sectionHash 2 ''New'' 0 \<noteq> ''-''
   \<and> cmdAppend (\<lambda>c y. c) [''f'' \<mapsto> join_nl [''# A'', ''x'']] ''f'' None
       (join_nl [''## New'', ''body'']) False True
     = (Inr \<lparr>action = created, idM = sectionHash 2 ''New'' 0, lineStart = 1, lineEndM = Some 2,
              linesAdded = 2, linesRemoved = 0\<rparr>,
        [''f'' \<mapsto> join_nl [''## New'', ''body'', ''# A'', ''x'']])"
proof (intro conjI)
  show "cmdAppend (\<lambda>c y. c) [''f'' \<mapsto> join_nl [''# A'', ''x'']] ''f'' None
       (join_nl [''## New'', ''body'']) False False
     = (Inr \<lparr>action = created, idM = ''-'', lineStart = 3, lineEndM = Some 5,
              linesAdded = 3, linesRemoved = 0\<rparr>,
        [''f'' \<mapsto> join_nl [''# A'', ''x'', '''', ''## New'', ''body'']])"
    by (simp add: cmd_ev parse_ev)
  show "map (\<lambda>s. (idS s, title s, line s))
        (sections (parseDocument (join_nl [''# A'', ''x'', '''', ''## New'', ''body''])))
     = [(sectionHash 1 ''A'' 0, ''A'', 1), (sectionHash 2 ''New'' 0, ''New'', 4)]"
    by (simp add: parse_ev numeral_2_eq_2)
  show "sectionHash 2 ''New'' 0 \<noteq> ''-''"
    by (rule sectionHash_not_dash)
  show "cmdAppend (\<lambda>c y. c) [''f'' \<mapsto> join_nl [''# A'', ''x'']] ''f'' None
       (join_nl [''## New'', ''body'']) False True
     = (Inr \<lparr>action = created, idM = sectionHash 2 ''New'' 0, lineStart = 1, lineEndM = Some 2,
              linesAdded = 2, linesRemoved = 0\<rparr>,
        [''f'' \<mapsto> join_nl [''## New'', ''body'', ''# A'', ''x'']])"
    by (simp add: cmd_ev parse_ev numeral_2_eq_2)
qed

subsection \<open>Occurrence indexes\<close>

lemma scan_level: "s \<in> set (scan n ls i b occ) \<Longrightarrow> 1 \<le> level s \<and> level s \<le> 6"
proof (induction ls arbitrary: i b occ)
  case Nil
  then show ?case by simp
next
  case (Cons l ls)
  show ?case
  proof (cases "\<exists>b' occ'. s \<in> set (scan n ls (Suc i) b' occ')")
    case True
    with Cons.IH show ?thesis by blast
  next
    case False
    with Cons.prems show ?thesis
      by (auto simp: Let_def header_match_def split: if_splits option.splits prod.splits)
  qed
qed

lemma scan_ids:
  "j < length (scan n ls i b occ) \<Longrightarrow>
   idS (scan n ls i b occ ! j) =
     sectionHash (level (scan n ls i b occ ! j)) (title (scan n ls i b occ ! j))
       (counter occ (section_key (scan n ls i b occ ! j))
        + length (filter (\<lambda>x. section_key x = section_key (scan n ls i b occ ! j))
                    (take j (scan n ls i b occ))))"
proof (induction ls arbitrary: i b occ j)
  case Nil
  then show ?case by simp
next
  case (Cons l ls)
  show ?case
  proof (cases "isFence l \<or> b \<or> header_match l = None")
    case True
    then obtain b' where eq: "scan n (l # ls) i b occ = scan n ls (Suc i) b' occ"
      by (cases "isFence l"; cases b) auto
    with Cons.prems have "j < length (scan n ls (Suc i) b' occ)" by simp
    from Cons.IH [OF this] show ?thesis by (simp only: eq)
  next
    case False
    then obtain lv m2 where hm: "header_match l = Some (lv, m2)" by auto
    define s0 where "s0 = \<lparr>idS = sectionHash lv (trim m2)
        (counter occ (dec lv @ '':'' @ trim (toLowerCase (trim m2)))),
        level = lv, title = trim m2, line = i + 1, lineEnd = n\<rparr>"
    define occ' where "occ' = occ(section_key s0 \<mapsto> counter occ (section_key s0) + 1)"
    have key0: "section_key s0 = dec lv @ '':'' @ trim (toLowerCase (trim m2))"
      by (simp add: s0_def section_key_def)
    have eq: "scan n (l # ls) i b occ = s0 # scan n ls (Suc i) b occ'"
      using False hm by (simp add: Let_def s0_def occ'_def section_key_def counter_def)
    show ?thesis
    proof (cases j)
      case 0
      show ?thesis
        unfolding eq 0 by (simp add: s0_def section_key_def)
    next
      case (Suc j')
      with Cons.prems eq have j': "j' < length (scan n ls (Suc i) b occ')" by simp
      let ?r = "scan n ls (Suc i) b occ'"
      have cnt: "counter occ' k = (if k = section_key s0 then counter occ k + 1 else counter occ k)" for k
        by (simp add: occ'_def counter_def)
      from Cons.IH [OF j'] have "idS (?r ! j') = sectionHash (level (?r ! j')) (title (?r ! j'))
          (counter occ' (section_key (?r ! j'))
           + length (filter (\<lambda>x. section_key x = section_key (?r ! j')) (take j' ?r)))" .
      then show ?thesis
        unfolding eq Suc by (auto simp: cnt)
    qed
  qed
qed

lemma digit_inj: "a < 10 \<Longrightarrow> b < 10 \<Longrightarrow> digit a = digit b \<Longrightarrow> a = b"
proof -
  assume "a < 10" "b < 10" "digit a = digit b"
  moreover have "distinct ''0123456789''" by simp
  ultimately show "a = b"
    unfolding digit_def by (simp add: nth_eq_iff_index_eq)
qed

lemma section_key_eq:
  assumes "level x \<le> 6" and "level y \<le> 6"
  shows "section_key x = section_key y
         \<longleftrightarrow> level x = level y \<and> normalizeTitle (title x) = normalizeTitle (title y)"
proof -
  have "dec (level x) = [digit (level x)]" "dec (level y) = [digit (level y)]"
    using assms by (simp_all add: dec.simps)
  moreover have "digit (level x) = digit (level y) \<longleftrightarrow> level x = level y"
    using assms digit_inj [of "level x" "level y"] by auto
  ultimately show ?thesis
    by (auto simp: section_key_def normalizeTitle_def)
qed

lemma fix_ends_fields:
  "map (\<lambda>s. (idS s, level s, title s)) (fix_ends ls ss) = map (\<lambda>s. (idS s, level s, title s)) ss"
  by (rule nth_equalityI) (simp_all add: fix_ends_nth_fields)

lemma parse_ids:
  assumes "j < length (sections (parseDocument t))"
  shows "idS (sections (parseDocument t) ! j) =
     sectionHash (level (sections (parseDocument t) ! j)) (title (sections (parseDocument t) ! j))
       (occurrence_index (sections (parseDocument t)) j)"
proof -
  define raw where "raw = scan (length (split_nl t))
       (drop (frontmatterEndLine (parseDocument t)) (split_nl t))
       (frontmatterEndLine (parseDocument t)) False Map.empty"
  define ss where "ss = sections (parseDocument t)"
  have ss: "ss = fix_ends (split_nl t) raw"
    by (simp add: ss_def raw_def parse_sections)
  from assms have j: "j < length raw" by (simp add: ss_def [symmetric] ss)
  have lv: "level x \<le> 6" if "x \<in> set raw" for x
    using that scan_level unfolding raw_def by blast
  have lvj: "level (raw ! j) \<le> 6" using j lv by simp
  have "idS (raw ! j) = sectionHash (level (raw ! j)) (title (raw ! j))
       (counter Map.empty (section_key (raw ! j))
        + length (filter (\<lambda>x. section_key x = section_key (raw ! j)) (take j raw)))"
    using j unfolding raw_def by (rule scan_ids)
  moreover have "filter (\<lambda>x. section_key x = section_key (raw ! j)) (take j raw)
      = filter (\<lambda>x. level x = level (raw ! j) \<and> normalizeTitle (title x) = normalizeTitle (title (raw ! j)))
          (take j raw)"
    by (rule filter_cong [OF refl]) (use lv lvj in \<open>auto simp: section_key_eq dest: in_set_takeD\<close>)
  ultimately have raw_id: "idS (raw ! j) = sectionHash (level (raw ! j)) (title (raw ! j))
       (occurrence_index raw j)"
    by (simp add: counter_def occurrence_index_def)
  have f: "map (\<lambda>s. (level s, title s)) ss = map (\<lambda>s. (level s, title s)) raw"
    by (rule nth_equalityI) (simp_all add: ss fix_ends_nth_fields)
  have "occurrence_index ss j = occurrence_index raw j"
  proof -
    have "occurrence_index xs j = length (filter (\<lambda>p. fst p = fst (map (\<lambda>s. (level s, title s)) xs ! j)
          \<and> normalizeTitle (snd p) = normalizeTitle (snd (map (\<lambda>s. (level s, title s)) xs ! j)))
        (take j (map (\<lambda>s. (level s, title s)) xs)))" if "j < length xs" for xs
      using that by (simp add: occurrence_index_def take_map filter_map comp_def)
    moreover have "j < length ss" using j by (simp add: ss)
    moreover have "level (ss ! j) = level (raw ! j)" "title (ss ! j) = title (raw ! j)"
      using j by (simp_all add: ss fix_ends_nth_fields)
    ultimately show ?thesis using j by (simp add: f)
  qed
  with raw_id j show ?thesis
    by (simp add: ss_def [symmetric]) (simp add: ss fix_ends_nth_fields)
qed

subsection \<open>Identifiers\<close>

lemmas norm_ev = sectionHash_def hash_input_def trim_def toLowerCase_def lowerChar_def isSpace_def
  char_of_def bit_Suc_0_iff Let_def

lemma hash_case_insensitive:
  "sectionHash 1 ''Title'' 0 = sectionHash 1 ''title  '' 0"
  "sectionHash 1 ''Title'' 0 = sectionHash 1 ''TITLE'' 0"
  by (simp_all add: norm_ev)

text \<open>
  C8, amended.  The identifier is the first 8 hexadecimal characters of the SHA-256 digest
  of the UTF-8 bytes of level, colon, lowercased trimmed title, colon, occurrence index.
  The identifiers of (1, Title, 0), (1, title followed by two spaces, 0) and
  (1, TITLE, 0) are equal; those of (1, Title, 0), (1, Title, 1), (2, Title, 0) and
  (1, Other, 0) are pairwise distinct.  Within one parse the identifier of a header is
  computed from its occurrence index, the number of earlier headers with the same level
  and normalized title, so two headers with the same level and normalized title are
  hashed with different occurrence indexes.
\<close>

theorem section_ids:
  assumes "j < length (sections (parseDocument t))"
  shows "sectionHash lv ttl k =
           take 8 (hex (sha256 (utf8 (dec lv @ '':'' @ trim (toLowerCase ttl) @ '':'' @ dec k))))
       \<and> sectionHash 1 ''Title'' 0 = sectionHash 1 ''title  '' 0
       \<and> sectionHash 1 ''Title'' 0 = sectionHash 1 ''TITLE'' 0
       \<and> distinct [sectionHash 1 ''Title'' 0, sectionHash 1 ''Title'' 1,
                   sectionHash 2 ''Title'' 0, sectionHash 1 ''Other'' 0]
       \<and> idS (sections (parseDocument t) ! j) =
           sectionHash (level (sections (parseDocument t) ! j))
             (title (sections (parseDocument t) ! j))
             (occurrence_index (sections (parseDocument t)) j)
       \<and> occurrence_index (sections (parseDocument t)) j =
           length (filter (\<lambda>x. level x = level (sections (parseDocument t) ! j)
                             \<and> trim (toLowerCase (title x))
                               = trim (toLowerCase (title (sections (parseDocument t) ! j))))
                     (take j (sections (parseDocument t))))"
proof (intro conjI)
  show "sectionHash lv ttl k =
           take 8 (hex (sha256 (utf8 (dec lv @ '':'' @ trim (toLowerCase ttl) @ '':'' @ dec k))))"
    by (simp add: sectionHash_def hash_input_def)
  show "sectionHash 1 ''Title'' 0 = sectionHash 1 ''title  '' 0"
    by (rule hash_case_insensitive)
  show "sectionHash 1 ''Title'' 0 = sectionHash 1 ''TITLE'' 0"
    by (rule hash_case_insensitive)
  show "distinct [sectionHash 1 ''Title'' 0, sectionHash 1 ''Title'' 1,
                   sectionHash 2 ''Title'' 0, sectionHash 1 ''Other'' 0]"
    by (simp add: hash_Title_0 hash_Title_1 hash_Title_2 hash_Other del: One_nat_def)
  show "idS (sections (parseDocument t) ! j) =
           sectionHash (level (sections (parseDocument t) ! j))
             (title (sections (parseDocument t) ! j))
             (occurrence_index (sections (parseDocument t)) j)"
    using assms by (rule parse_ids)
  show "occurrence_index (sections (parseDocument t)) j =
           length (filter (\<lambda>x. level x = level (sections (parseDocument t) ! j)
                             \<and> trim (toLowerCase (title x))
                               = trim (toLowerCase (title (sections (parseDocument t) ! j))))
                     (take j (sections (parseDocument t))))"
    by (simp add: occurrence_index_def normalizeTitle_def)
qed

theorem section_ids_witness:
  "2 < length (sections (parseDocument (join_nl [''# Title'', ''## Title'', ''# Title''])))
   \<and> idS (sections (parseDocument (join_nl [''# Title'', ''## Title'', ''# Title''])) ! 2)
       = sectionHash 1 ''Title'' 1"
proof -
  let ?ss = "sections (parseDocument (join_nl [''# Title'', ''## Title'', ''# Title'']))"
  have len: "2 < length ?ss"
    by (simp add: parse_ev)
  have lt: "level (?ss ! 2) = 1 \<and> title (?ss ! 2) = ''Title''"
    by (simp add: parse_ev)
  have oi: "length (filter (\<lambda>x. level x = level (?ss ! 2)
                \<and> trim (toLowerCase (title x)) = trim (toLowerCase (title (?ss ! 2))))
              (take 2 ?ss)) = 1"
    by (simp add: parse_ev)
  from section_ids [OF len] have
    "idS (?ss ! 2) = sectionHash (level (?ss ! 2)) (title (?ss ! 2)) (occurrence_index ?ss 2)"
    "occurrence_index ?ss 2 = length (filter (\<lambda>x. level x = level (?ss ! 2)
                \<and> trim (toLowerCase (title x)) = trim (toLowerCase (title (?ss ! 2))))
              (take 2 ?ss))"
    by blast+
  with len lt oi show ?thesis by simp
qed

lemma replicate_one: "replicate 1 x = [x]"
  by simp

lemma same_title_fields:
  "map (\<lambda>s. (idS s, level s, title s)) (sections (parseDocument same_title_doc)) =
   map (\<lambda>k. (sectionHash (Suc 0) ''t34743085'' k, Suc 0, ''t34743085''))
     [0, 1, 2, 3, 4, 5, 6, 7, 8, 9, 10, 11, 12, 13, 14, 15, 16, 17, 18, 19, 20, 21, 22, 23]"
  by (simp add: same_title_doc_def parse_ev replicate_num replicate_one del: One_nat_def)

text \<open>
  The claim as stated fails where the truncated digests of two occurrence indexes agree:
  of the 24 headers \<^verbatim>\<open># t34743085\<close> of \<open>same_title_doc\<close>, the sixth and the last have the
  same level, the same title and the same identifier \<^verbatim>\<open>eb8dc625\<close>.
\<close>

theorem same_title_same_id_counterexample:
  "length (sections (parseDocument same_title_doc)) = 24
   \<and> level (sections (parseDocument same_title_doc) ! 5)
       = level (sections (parseDocument same_title_doc) ! 23)
   \<and> normalizeTitle (title (sections (parseDocument same_title_doc) ! 5))
       = normalizeTitle (title (sections (parseDocument same_title_doc) ! 23))
   \<and> idS (sections (parseDocument same_title_doc) ! 5)
       = idS (sections (parseDocument same_title_doc) ! 23)"
proof -
  let ?ss = "sections (parseDocument same_title_doc)"
  let ?f = "\<lambda>s. (idS s, level s, title s)"
  have len: "length ?ss = 24"
    using arg_cong [OF same_title_fields, of length] by simp
  have "map ?f ?ss ! 5 = (sectionHash (Suc 0) ''t34743085'' 5, Suc 0, ''t34743085'')"
    by (simp only: same_title_fields) simp
  then have f5: "?f (?ss ! 5) = (sectionHash (Suc 0) ''t34743085'' 5, Suc 0, ''t34743085'')"
    using len by simp
  have "map ?f ?ss ! 23 = (sectionHash (Suc 0) ''t34743085'' 23, Suc 0, ''t34743085'')"
    by (simp only: same_title_fields) simp
  then have f23: "?f (?ss ! 23) = (sectionHash (Suc 0) ''t34743085'' 23, Suc 0, ''t34743085'')"
    using len by simp
  from len f5 f23 show ?thesis
    by (simp add: hash_t_5 hash_t_23)
qed

end
